theory Spec2Isabelle
  imports Main "HOL-Library.Char_ord" "HOL-Library.List_Lexorder" "HOL-Library.Multiset"
begin

section \<open>The wrapper package of goprotowrap\<close>

text \<open>
  The development follows the Go sources of the wrapper package: finding.go (Disjoint),
  flags.go (ParseArgs), packages.go (ComputeGoLocations, CollectPackages,
  ImportedPackageComputedNames), cycles.go (CheckCycles, tarjan) and wrapper.go (Init,
  Generate).

  Command-line arguments and paths are Go strings read byte by byte (\<open>arg[0]\<close>, \<open>len(arg)\<close>)
  and are modelled by \<^typ>\<open>string\<close>. The names that packages.go works on (file names,
  package names, go_package options) go through \<open>strings.Map\<close>, which works on runes; they
  are modelled as lists of runes, the code points of well-formed UTF-8 text. The separators
  the code searches for (slash, semicolon, dot) are single bytes, so a byte index into the
  text and the rune index used here cut the text at the same place.
\<close>

type_synonym rune = nat

type_synonym gostring = "rune list"

definition go :: "string \<Rightarrow> gostring" where
  "go s = map of_char s"

text \<open>The run-time panics of the code: they end the program and are no error results.\<close>

datatype panic = IndexOutOfRange | NilDereference | NotFound gostring

subsection \<open>finding.go: Disjoint, and the list of protos built by Init\<close>

text \<open>
  The second loop of Disjoint: \<open>seen\<close> is the set of keys of the Go map \<open>set\<close>, \<open>result\<close> the
  slice built so far.
\<close>

fun Disjoint_loop :: "string set \<Rightarrow> string list \<Rightarrow> string list \<Rightarrow> string list" where
  "Disjoint_loop seen result [] = result"
| "Disjoint_loop seen result (proto # rest) =
     (if proto \<in> seen then Disjoint_loop seen result rest
      else Disjoint_loop (insert proto seen) (result @ [proto]) rest)"

definition Disjoint :: "string list \<Rightarrow> string list \<Rightarrow> string list" where
  "Disjoint existing additional = Disjoint_loop (fold insert existing {}) [] additional"

text \<open>
  The words of the specification: the elements of \<open>additional\<close> that do not occur in
  \<open>existing\<close>, each kept at its first occurrence only, in their order.
\<close>

fun first_occurrences :: "'a list \<Rightarrow> 'a list" where
  "first_occurrences [] = []"
| "first_occurrences (x # xs) = x # filter (\<lambda>y. y \<noteq> x) (first_occurrences xs)"

definition Disjoint_spec :: "string list \<Rightarrow> string list \<Rightarrow> string list" where
  "Disjoint_spec existing additional =
     first_occurrences (filter (\<lambda>p. p \<notin> set existing) additional)"

text \<open>
  Lines 90 to 102 of Init. ProtosBelow walks the file system; its outcome is the parameter
  \<open>below\<close> (an error, or the paths it found). The result is the field allProtos.
\<close>

datatype init_error = ProtosBelowError string

definition Init_allProtos ::
  "bool \<Rightarrow> string list \<Rightarrow> init_error + string list \<Rightarrow> init_error + string list" where
  "Init_allProtos NoExpand ProtoFiles below =
     (if \<not> NoExpand then
        (case below of
           Inl e \<Rightarrow> Inl e
         | Inr neighbors \<Rightarrow> Inr (ProtoFiles @ Disjoint ProtoFiles neighbors))
      else Inr (ProtoFiles @ []))"

subsection \<open>flags.go: ParseArgs\<close>

text \<open>
  The Go map noValueFlags, read only through lookups that yield false for a missing key.
\<close>

definition noValueFlags :: "string \<Rightarrow> bool" where
  "noValueFlags arg \<longleftrightarrow>
     arg \<in> {''-h'', ''--help'', ''--disallow_services'', ''--include_imports'',
            ''--include_source_info'', ''--version'', ''--decode_raw'',
            ''--print_free_field_numbers''}"

text \<open>
  The two errors ParseArgs builds with fmt.Errorf, each with the argument it quotes, and the
  run-time panic of an index out of range (\<open>arg[0]\<close>, \<open>arg[1]\<close>, \<open>args[len(args)-1]\<close>).
\<close>

datatype parse_error = FlagNotAllowed string | FlagWithNoValue string | ParsePanic panic

text \<open>The named results and the local variables of ParseArgs.\<close>

record parse_state =
  customFlags :: "string \<rightharpoonup> string"
  protocFlags :: "string list"
  protos :: "string list"
  importDirs :: "string list"
  nextIsFlag :: bool
  nextIsCustomFlag :: bool
  nextIsImportDir :: bool
  customName :: string

definition ParseArgs_init :: parse_state where
  "ParseArgs_init =
     \<lparr>customFlags = Map.empty, protocFlags = [], protos = [], importDirs = [],
      nextIsFlag = False, nextIsCustomFlag = False, nextIsImportDir = False,
      customName = []\<rparr>"

text \<open>
  \<open>strings.SplitN(s, "=", 2)\<close>: one part when \<open>s\<close> has no \<open>=\<close>, else the text before the
  first \<open>=\<close> and the text after it.
\<close>

definition SplitN_eq_2 :: "string \<Rightarrow> string list" where
  "SplitN_eq_2 s =
     (if CHR ''='' \<in> set s
      then [takeWhile (\<lambda>c. c \<noteq> CHR ''='') s, tl (dropWhile (\<lambda>c. c \<noteq> CHR ''='') s)]
      else [s])"

text \<open>The branch of the loop body for an argument that starts with two dashes.\<close>

definition two_dashes :: "(string \<rightharpoonup> bool) \<Rightarrow> parse_state \<Rightarrow> string \<Rightarrow> parse_state" where
  "two_dashes custom st arg =
     (let parts = SplitN_eq_2 (drop 2 arg); name = hd parts in
      case custom name of
        Some needsValue \<Rightarrow>
          if length parts = 1 then
            (if needsValue then st\<lparr>nextIsCustomFlag := True, customName := name\<rparr>
             else st\<lparr>customFlags := (customFlags st)(name \<mapsto> [])\<rparr>)
          else st\<lparr>customFlags := (customFlags st)(name \<mapsto> parts ! 1)\<rparr>
      | None \<Rightarrow>
          (let st1 = st\<lparr>protocFlags := protocFlags st @ [arg]\<rparr> in
           if length parts = 1 then st1\<lparr>nextIsFlag := True\<rparr> else st1))"

text \<open>The branch for an argument with one dash, after it is appended to protocFlags.\<close>

definition one_dash :: "parse_state \<Rightarrow> string \<Rightarrow> parse_state" where
  "one_dash st arg =
     (let st1 = st\<lparr>protocFlags := protocFlags st @ [arg]\<rparr> in
      if length arg = 2 then
        st1\<lparr>nextIsFlag := True, nextIsImportDir := (arg ! 1 = CHR ''I'')\<rparr>
      else if arg ! 1 = CHR ''I'' then st1\<lparr>importDirs := importDirs st1 @ [drop 2 arg]\<rparr>
      else st1)"

text \<open>One iteration of the loop over \<open>args\<close>; \<open>Inl\<close> is the early return or a panic.\<close>

definition ParseArgs_step ::
  "(string \<rightharpoonup> bool) \<Rightarrow> parse_state \<Rightarrow> string \<Rightarrow> parse_error + parse_state" where
  "ParseArgs_step custom st arg =
     (if arg = [] \<or> arg = ''-'' \<or> arg = ''--'' then Inl (FlagNotAllowed arg)
      else if nextIsCustomFlag st then
        Inr (st\<lparr>customFlags := (customFlags st)(customName st \<mapsto> arg),
                nextIsCustomFlag := False\<rparr>)
      else if nextIsFlag st then
        (let st1 = st\<lparr>protocFlags := protocFlags st @ [arg], nextIsFlag := False\<rparr> in
         Inr (if nextIsImportDir st1
              then st1\<lparr>importDirs := importDirs st1 @ [arg], nextIsImportDir := False\<rparr>
              else st1))
      else if noValueFlags arg then Inr (st\<lparr>protocFlags := protocFlags st @ [arg]\<rparr>)
      else if length arg < 1 then Inl (ParsePanic IndexOutOfRange)
      else if arg ! 0 \<noteq> CHR ''-'' then Inr (st\<lparr>protos := protos st @ [arg]\<rparr>)
      else if length arg < 2 then Inl (ParsePanic IndexOutOfRange)
      else if arg ! 1 = CHR ''-'' then Inr (two_dashes custom st arg)
      else Inr (one_dash st arg))"

fun ParseArgs_loop ::
  "(string \<rightharpoonup> bool) \<Rightarrow> parse_state \<Rightarrow> string list \<Rightarrow> parse_error + parse_state" where
  "ParseArgs_loop custom st [] = Inr st"
| "ParseArgs_loop custom st (arg # args) =
     (case ParseArgs_step custom st arg of
        Inl e \<Rightarrow> Inl e
      | Inr st' \<Rightarrow> ParseArgs_loop custom st' args)"

text \<open>
  ParseArgs. On an error the Go function returns nil for the four other results; here the
  error is all that \<open>Inl\<close> carries. On success the results are customFlags, protocFlags,
  protos and importDirs.
\<close>

definition ParseArgs ::
  "string list \<Rightarrow> (string \<rightharpoonup> bool) \<Rightarrow>
     parse_error + (string \<rightharpoonup> string) \<times> string list \<times> string list \<times> string list" where
  "ParseArgs args custom =
     (case ParseArgs_loop custom ParseArgs_init args of
        Inl e \<Rightarrow> Inl e
      | Inr st \<Rightarrow>
          if nextIsFlag st \<or> nextIsCustomFlag st then
            (if args = [] then Inl (ParsePanic IndexOutOfRange) else Inl (FlagWithNoValue (last args)))
          else Inr (customFlags st, protocFlags st, protos st, importDirs st))"

text \<open>
  The words of the claim about ParseArgs. An argument is refused when it is empty, \<open>-\<close> or
  \<open>--\<close>. A flag expects a value in the next argument when it is not one of noValueFlags
  and is either a single dash with one letter, or a double-dash flag without \<open>=\<close> that is
  not a custom flag without value. An argument list awaits a value when its last argument
  is such a flag and is not itself the value of the flag before it.
\<close>

definition refused :: "string \<Rightarrow> bool" where
  "refused arg \<longleftrightarrow> arg = [] \<or> arg = ''-'' \<or> arg = ''--''"

definition expects_value :: "(string \<rightharpoonup> bool) \<Rightarrow> string \<Rightarrow> bool" where
  "expects_value custom arg \<longleftrightarrow>
     \<not> noValueFlags arg \<and> take 1 arg = ''-'' \<and>
     (if take 2 arg = ''--''
      then CHR ''='' \<notin> set (drop 2 arg) \<and> custom (drop 2 arg) \<noteq> Some False
      else length arg = 2)"

fun awaits_value :: "(string \<rightharpoonup> bool) \<Rightarrow> string list \<Rightarrow> bool" where
  "awaits_value custom [] = False"
| "awaits_value custom [arg] = expects_value custom arg"
| "awaits_value custom (arg # v # args) =
     (if expects_value custom arg then awaits_value custom args
      else awaits_value custom (v # args))"

text \<open>
  The values given to a single-dash \<open>-I\<close>: the argument after a lone \<open>-I\<close>, and the rest of
  an argument \<open>-Ivalue\<close>; an argument that is the value of the flag before it is no flag.
\<close>

fun I_values :: "(string \<rightharpoonup> bool) \<Rightarrow> string list \<Rightarrow> string list" where
  "I_values custom [] = []"
| "I_values custom [arg] =
     (if \<not> expects_value custom arg \<and> take 2 arg = ''-I'' then [drop 2 arg] else [])"
| "I_values custom (arg # v # args) =
     (if expects_value custom arg then
        (if arg = ''-I'' then [v] else []) @ I_values custom args
      else (if take 2 arg = ''-I'' then [drop 2 arg] else []) @ I_values custom (v # args))"

text \<open>
  Two facts about the loop variables: a value is awaited when either of nextIsFlag and
  nextIsCustomFlag is set; nextIsImportDir is only set together with nextIsFlag, and the two
  others are never set together.
\<close>

definition pending :: "parse_state \<Rightarrow> bool" where
  "pending st \<longleftrightarrow> nextIsFlag st \<or> nextIsCustomFlag st"

definition flags_inv :: "parse_state \<Rightarrow> bool" where
  "flags_inv st \<longleftrightarrow>
     (nextIsFlag st \<or> \<not> nextIsImportDir st) \<and> \<not> (nextIsFlag st \<and> nextIsCustomFlag st)"

definition passed_through :: "parse_state \<Rightarrow> bool" where
  "passed_through st \<longleftrightarrow>
     list_all (\<lambda>d. d \<in> set (protocFlags st) \<or> (''-I'' @ d) \<in> set (protocFlags st))
       (importDirs st)"

subsection \<open>packages.go: FileInfo, PackageInfo, ComputeGoLocations\<close>

record FileInfo =
  Name :: gostring
  FullPath :: gostring
  Package :: gostring
  GoPackage :: gostring
  Deps :: "gostring list"
  ComputedPackage :: gostring

text \<open>
  PackageInfo. Its fields ComputedPackage and Deps carry the prefix Pkg here, to tell them
  from those of FileInfo. Files and Deps are slices of pointers to FileInfo: a pointer is the
  FileInfo it points to (no FileInfo is written after ComputeGoLocations), and \<open>None\<close> is
  the nil pointer.
\<close>

record PackageInfo =
  PkgComputedPackage :: gostring
  Files :: "FileInfo list"
  PkgDeps :: "FileInfo option list"
  index :: nat
  lowlink :: nat
  onStack :: bool

text \<open>
  The functions of the Go library that ComputeGoLocations calls and whose code is not part of
  the repository: \<open>filepath.Dir\<close>, \<open>unicode.IsLetter\<close> and \<open>unicode.IsDigit\<close>. They are
  parameters of the model.
\<close>

record stdlib =
  filepath_Dir :: "gostring \<Rightarrow> gostring"
  unicode_IsLetter :: "rune \<Rightarrow> bool"
  unicode_IsDigit :: "rune \<Rightarrow> bool"

text \<open>
  An instance for examples: \<open>filepath.Dir\<close> on a clean relative path (the text before the
  last slash, or a dot), and the letters and digits of ASCII.
\<close>

definition posix_ascii :: stdlib where
  "posix_ascii =
     \<lparr>filepath_Dir = (\<lambda>name. if 47 \<in> set name
                              then rev (tl (dropWhile (\<lambda>r. r \<noteq> 47) (rev name)))
                              else [46]),
      unicode_IsLetter = (\<lambda>r. (65 \<le> r \<and> r \<le> 90) \<or> (97 \<le> r \<and> r \<le> 122)),
      unicode_IsDigit = (\<lambda>r. 48 \<le> r \<and> r \<le> 57)\<rparr>"

text \<open>\<open>strings.LastIndex(s, c)\<close> for a one-byte separator \<open>c\<close>: the last position of \<open>c\<close>
  in \<open>s\<close>, or \<open>-1\<close>.\<close>

definition LastIndex :: "gostring \<Rightarrow> rune \<Rightarrow> int" where
  "LastIndex s c =
     (if c \<in> set s then int (length s) - 1 - int (length (takeWhile (\<lambda>r. r \<noteq> c) (rev s)))
      else - 1)"

text \<open>\<open>strings.Map(mapping, s)\<close> on runes.\<close>

definition strings_Map :: "(rune \<Rightarrow> rune) \<Rightarrow> gostring \<Rightarrow> gostring" where
  "strings_Map mapping s = map mapping s"

definition badToUnderscore :: "stdlib \<Rightarrow> rune \<Rightarrow> rune" where
  "badToUnderscore lib r =
     (if unicode_IsLetter lib r \<or> unicode_IsDigit lib r \<or> r = 95 then r else 95)"

definition baseName :: "gostring \<Rightarrow> gostring" where
  "baseName name =
     (let name1 = (let i = LastIndex name 47 in
                   if i \<ge> 0 then drop (nat (i + 1)) name else name);
          j = LastIndex name1 46
      in if j \<ge> 0 then take (nat j) name1 else name1)"

text \<open>The warning that ComputeGoLocations prints on standard error, with the file's name.\<close>

datatype warning = NoPackageWarning gostring

text \<open>
  The body of the loop of ComputeGoLocations, for one FileInfo: the FileInfo with its
  ComputedPackage set, and the warning printed, if any. Slash is 47, semicolon 59.
\<close>

definition ComputeGoLocation :: "stdlib \<Rightarrow> FileInfo \<Rightarrow> FileInfo \<times> warning option" where
  "ComputeGoLocation lib info =
     (let dir = filepath_Dir lib (Name info);
          pkg = GoPackage info;
          slash = LastIndex pkg 47
      in if slash > 0 then
           (if 59 \<in> set pkg then (info\<lparr>ComputedPackage := pkg\<rparr>, None)
            else (let decl = drop (nat (slash + 1)) pkg
                  in (info\<lparr>ComputedPackage := pkg @ [59] @ decl\<rparr>, None)))
         else
           (let pkg1 = (if pkg = [] then Package info else pkg);
                pkg2 = (if pkg1 = [] then baseName (Name info) else pkg1);
                warned = (if pkg1 = [] then Some (NoPackageWarning (Name info)) else None)
            in (info\<lparr>ComputedPackage := dir @ [59] @ strings_Map (badToUnderscore lib) pkg2\<rparr>,
                warned)))"

text \<open>
  ComputeGoLocations. The Go map \<open>infos\<close> is a list of its entries, in the order in which
  \<open>range\<close> happens to visit them; the keys are distinct. The result is the map with every
  FileInfo updated, and the warnings in the order printed.
\<close>

definition ComputeGoLocations ::
  "stdlib \<Rightarrow> (gostring \<times> FileInfo) list \<Rightarrow> (gostring \<times> FileInfo) list \<times> warning list" where
  "ComputeGoLocations lib infos =
     (map (\<lambda>(k, info). (k, fst (ComputeGoLocation lib info))) infos,
      List.map_filter (\<lambda>(k, info). snd (ComputeGoLocation lib info)) infos)"

subsection \<open>packages.go: CollectPackages and ImportedPackageComputedNames\<close>

text \<open>
  The first loop of CollectPackages, for one FileInfo: the entry of \<open>pkgMap\<close> under the
  file's ComputedPackage is created when missing, and the file is appended to its Files.
  \<open>pkgMap\<close> is the list of the entries of the Go map, keys distinct.
\<close>

definition new_PackageInfo :: "gostring \<Rightarrow> PackageInfo" where
  "new_PackageInfo k =
     \<lparr>PkgComputedPackage = k, Files = [], PkgDeps = [], index = 0, lowlink = 0,
      onStack = False\<rparr>"

definition modify :: "'k \<Rightarrow> ('v \<Rightarrow> 'v) \<Rightarrow> ('k \<times> 'v) list \<Rightarrow> ('k \<times> 'v) list" where
  "modify k f m = map (\<lambda>(k', v). (k', if k' = k then f v else v)) m"

definition add_file :: "(gostring \<times> PackageInfo) list \<Rightarrow> FileInfo \<Rightarrow> (gostring \<times> PackageInfo) list" where
  "add_file pkgMap info =
     (let pkgMap1 = (case map_of pkgMap (ComputedPackage info) of
                       Some packageInfo \<Rightarrow> pkgMap
                     | None \<Rightarrow> pkgMap @ [(ComputedPackage info,
                                          new_PackageInfo (ComputedPackage info))])
      in modify (ComputedPackage info) (\<lambda>p. p\<lparr>Files := Files p @ [info]\<rparr>) pkgMap1)"

text \<open>
  The second loop, for one package: \<open>deps[dep] = infos[dep]\<close> for every dependency name of
  every file, then the values of \<open>deps\<close> appended to Deps in the order of \<open>range deps\<close>. A
  name missing from \<open>infos\<close> gives the nil pointer. \<open>collect_deps\<close> is the content of the map
  \<open>deps\<close>, one entry for each key.

  Go does not fix the order in which \<open>range\<close> visits the entries of a map, and the order
  differs from run to run. It is a parameter: \<open>visit key entries\<close> is the order in which the
  entries of the map \<open>deps\<close> of the package \<open>key\<close> are visited, a permutation of them.
\<close>

type_synonym range_order =
  "gostring \<Rightarrow> (gostring \<times> FileInfo option) list \<Rightarrow> (gostring \<times> FileInfo option) list"

definition permutes :: "range_order \<Rightarrow> bool" where
  "permutes visit \<longleftrightarrow> (\<forall>key entries. mset (visit key entries) = mset entries)"

definition store :: "'k \<Rightarrow> 'v \<Rightarrow> ('k \<times> 'v) list \<Rightarrow> ('k \<times> 'v) list" where
  "store k v m = (if k \<in> fst ` set m then modify k (\<lambda>_. v) m else m @ [(k, v)])"

definition collect_deps ::
  "(gostring \<times> FileInfo) list \<Rightarrow> PackageInfo \<Rightarrow> (gostring \<times> FileInfo option) list" where
  "collect_deps infos pkg =
     fold (\<lambda>info deps. fold (\<lambda>dep deps. store dep (map_of infos dep) deps) (Deps info) deps)
       (Files pkg) []"

definition set_deps ::
  "range_order \<Rightarrow> (gostring \<times> FileInfo) list \<Rightarrow> PackageInfo \<Rightarrow> PackageInfo" where
  "set_deps visit infos pkg =
     pkg\<lparr>PkgDeps := PkgDeps pkg
            @ map snd (visit (PkgComputedPackage pkg) (collect_deps infos pkg))\<rparr>"

text \<open>
  CollectPackages; its parameters \<open>protos\<close> and \<open>importDirs\<close> are not used. The error it
  returns is nil on every path: the result is always \<open>Inr\<close>. The list \<open>infos\<close> holds the
  entries of the map in the order in which the first loop visits them.
\<close>

datatype collect_error = CollectError

definition CollectPackages ::
  "range_order \<Rightarrow> (gostring \<times> FileInfo) list \<Rightarrow>
     collect_error + (gostring \<times> PackageInfo) list" where
  "CollectPackages visit infos =
     (let pkgMap = fold (\<lambda>(k, info) pkgMap. add_file pkgMap info) infos []
      in Inr (map (\<lambda>(k, pkg). (k, set_deps visit infos pkg)) pkgMap))"

text \<open>
  ImportedPackageComputedNames: the loop over Deps, with the keys of \<open>seen\<close> and the result
  so far. Reading \<open>d.ComputedPackage\<close> through a nil pointer panics.
\<close>

fun imported_loop ::
  "gostring set \<Rightarrow> gostring list \<Rightarrow> FileInfo option list \<Rightarrow> panic + gostring list" where
  "imported_loop seen result [] = Inr result"
| "imported_loop seen result (None # ds) = Inl NilDereference"
| "imported_loop seen result (Some d # ds) =
     (let pkg = ComputedPackage d in
      if pkg \<in> seen then imported_loop seen result ds
      else imported_loop (insert pkg seen) (result @ [pkg]) ds)"

definition ImportedPackageComputedNames :: "PackageInfo \<Rightarrow> panic + gostring list" where
  "ImportedPackageComputedNames p = imported_loop {PkgComputedPackage p} [] (PkgDeps p)"

text \<open>
  What a result of CollectPackages holds when the order of the slices is put aside: for
  every key, the set of member files and the set of dependencies.
\<close>

definition buckets ::
  "(gostring \<times> PackageInfo) list \<Rightarrow> (gostring \<times> FileInfo set \<times> FileInfo option set) set" where
  "buckets pkgMap = (\<lambda>(k, p). (k, set (Files p), set (PkgDeps p))) ` set pkgMap"

text \<open>
  The closed form of the first loop of CollectPackages on the files \<open>fs\<close>: one entry for
  each ComputedPackage, in the order of first appearance, with the files that have it.
\<close>

definition grouped :: "FileInfo list \<Rightarrow> (gostring \<times> PackageInfo) list" where
  "grouped fs =
     map (\<lambda>key. (key, (new_PackageInfo key)\<lparr>Files := filter (\<lambda>i. ComputedPackage i = key) fs\<rparr>))
       (first_occurrences (map ComputedPackage fs))"

subsection \<open>wrapper.go: the Wrapper, packagesInOrder and Generate\<close>

text \<open>
  The fields of Wrapper that CheckCycles and Generate read. The PackageInfo objects live in
  \<open>allPackages\<close>, the list of the entries of the Go map, each under its ComputedPackage. Init
  fills \<open>w.packages\<close> with pointers to objects of \<open>allPackages\<close>, each under the same key
  (lines 126 to 133): a pointer to a PackageInfo is its key in \<open>allPackages\<close>, and \<open>packages\<close>
  is the list of the keys of \<open>w.packages\<close>.
\<close>

record Wrapper =
  Parallelism :: int
  packages :: "gostring list"
  allPackages :: "(gostring \<times> PackageInfo) list"
  initCalled :: bool

definition packagesInOrder :: "Wrapper \<Rightarrow> gostring list" where
  "packagesInOrder w = sort (packages w)"

text \<open>
  The errors of Generate: the two it returns before any work starts, and the one a worker
  builds from the error of the generation of a package.
\<close>

datatype generate_error =
  InitNotCalled | ParallelismTooSmall int | ErrorGeneratingPackage gostring string

text \<open>
  Generate starts goroutines that talk over two channels. Its executions are the paths of a
  transition system. A worker is at the receive of \<open>range pkgChan\<close>, or holds a package
  and is about to call the generator, or is at the send \<open>errChan <- ...\<close> with its error, or
  has left its loop and called \<open>wg.Done\<close>. The submitting goroutine is in the loop over the
  packages still to submit (at the \<open>select\<close>, or at the end of the loop when none is left),
  or at \<open>close(pkgChan)\<close>, or at \<open>wg.Wait\<close>, or has returned.
\<close>

datatype worker = Receiving | Generating gostring | Sending generate_error | Exited

datatype submitter = Submit "gostring list" | Close | Wait | Return

record gen_state =
  submitter :: submitter
  err :: "generate_error option"
  workers :: "worker list"
  errChan :: "generate_error list"
  capacity :: nat

text \<open>
  The part of Generate before the loop: the two checks, the worker count, the channels and
  the goroutines.
\<close>

definition Generate_start :: "Wrapper \<Rightarrow> generate_error + gen_state" where
  "Generate_start w =
     (if \<not> initCalled w then Inl InitNotCalled
      else if Parallelism w < 1 then Inl (ParallelismTooSmall (Parallelism w))
      else (let parallelism = (if Parallelism w < int (length (packages w))
                               then nat (Parallelism w) else length (packages w))
            in Inr \<lparr>submitter = Submit (packagesInOrder w), err = None,
                     workers = replicate parallelism Receiving, errChan = [],
                     capacity = parallelism\<rparr>))"

text \<open>
  The steps of the submitting goroutine. At the \<open>select\<close> each communication that can
  proceed is a possible step: the send on the unbuffered \<open>pkgChan\<close> to a worker that is
  receiving, and the receive from \<open>errChan\<close> when it holds an error, which leaves the loop.
\<close>

definition submitter_steps :: "gen_state \<Rightarrow> gen_state list" where
  "submitter_steps s =
     (case submitter s of
        Submit [] \<Rightarrow> [s\<lparr>submitter := Close\<rparr>]
      | Submit (pkg # rest) \<Rightarrow>
          map (\<lambda>i. s\<lparr>submitter := Submit rest, workers := (workers s)[i := Generating pkg]\<rparr>)
            (filter (\<lambda>i. workers s ! i = Receiving) [0..<length (workers s)])
          @ (case errChan s of
               [] \<Rightarrow> []
             | e # es \<Rightarrow> [s\<lparr>err := Some e, errChan := es, submitter := Close\<rparr>])
      | Close \<Rightarrow> [s\<lparr>submitter := Wait\<rparr>]
      | Wait \<Rightarrow> (if list_all (\<lambda>w. w = Exited) (workers s) then [s\<lparr>submitter := Return\<rparr>] else [])
      | Return \<Rightarrow> [])"

text \<open>
  The steps of worker \<open>i\<close>; \<open>generate\<close> is the outcome of the generation of a package, nil
  or an error (the call of the external generator). A receiving worker leaves its loop when
  \<open>pkgChan\<close> is closed; a send on \<open>errChan\<close> needs room in the buffer.
\<close>

definition pkgChan_closed :: "gen_state \<Rightarrow> bool" where
  "pkgChan_closed s \<longleftrightarrow> submitter s = Wait \<or> submitter s = Return"

definition worker_steps :: "(gostring \<Rightarrow> string option) \<Rightarrow> gen_state \<Rightarrow> nat \<Rightarrow> gen_state list" where
  "worker_steps generate s i =
     (case workers s ! i of
        Receiving \<Rightarrow>
          if pkgChan_closed s then [s\<lparr>workers := (workers s)[i := Exited]\<rparr>] else []
      | Generating pkg \<Rightarrow>
          (case generate pkg of
             None \<Rightarrow> [s\<lparr>workers := (workers s)[i := Receiving]\<rparr>]
           | Some e \<Rightarrow>
               [s\<lparr>workers := (workers s)[i := Sending (ErrorGeneratingPackage pkg e)]\<rparr>])
      | Sending e \<Rightarrow>
          if length (errChan s) < capacity s
          then [s\<lparr>errChan := errChan s @ [e], workers := (workers s)[i := Receiving]\<rparr>]
          else []
      | Exited \<Rightarrow> [])"

definition next_states :: "(gostring \<Rightarrow> string option) \<Rightarrow> gen_state \<Rightarrow> gen_state list" where
  "next_states generate s =
     submitter_steps s @ concat (map (worker_steps generate s) [0..<length (workers s)])"

definition step :: "(gostring \<Rightarrow> string option) \<Rightarrow> gen_state \<Rightarrow> gen_state \<Rightarrow> bool" where
  "step generate s s' \<longleftrightarrow> s' \<in> set (next_states generate s)"

text \<open>
  The values Generate can return: the error of one of its two checks, or the value of \<open>err\<close>
  in a state reached with the submitting goroutine returned. The deadlocks: the states
  reached where no goroutine can move and Generate has not returned.
\<close>

definition Generate_returns ::
  "Wrapper \<Rightarrow> (gostring \<Rightarrow> string option) \<Rightarrow> generate_error option set" where
  "Generate_returns w generate =
     (case Generate_start w of
        Inl e \<Rightarrow> {Some e}
      | Inr s0 \<Rightarrow> {err s |s. (step generate)\<^sup>*\<^sup>* s0 s \<and> submitter s = Return})"

definition Generate_deadlocks ::
  "Wrapper \<Rightarrow> (gostring \<Rightarrow> string option) \<Rightarrow> gen_state set" where
  "Generate_deadlocks w generate =
     (case Generate_start w of
        Inl e \<Rightarrow> {}
      | Inr s0 \<Rightarrow> {s. (step generate)\<^sup>*\<^sup>* s0 s \<and> next_states generate s = []
                       \<and> submitter s \<noteq> Return})"

text \<open>
  An invariant of the executions of Generate with a single worker and a single package:
  \<open>err\<close> stays nil, and while the package is not yet submitted \<open>errChan\<close> is empty and the
  worker is receiving.
\<close>

definition single_inv :: "gen_state \<Rightarrow> bool" where
  "single_inv s \<longleftrightarrow>
     err s = None \<and> length (workers s) = 1 \<and>
     (case submitter s of
        Submit (pkg # rest) \<Rightarrow> rest = [] \<and> errChan s = [] \<and> workers s = [Receiving]
      | _ \<Rightarrow> True)"

subsection \<open>cycles.go: tarjan and CheckCycles\<close>

text \<open>
  The variables that the closure strongConnect shares with tarjan: the counter \<open>index\<close>
  (here next_index), \<open>sccs\<close>, the stack \<open>s\<close> (here stack, its top at the end as \<open>append\<close>
  puts it), and the PackageInfo objects of \<open>allPackages\<close>, whose fields index, lowlink and
  onStack the traversal writes.
\<close>

record tarjan_state =
  next_index :: nat
  sccs :: "gostring list list"
  stack :: "gostring list"
  pkgs :: "(gostring \<times> PackageInfo) list"

text \<open>
  Reading a field through a pointer. The pointers that the code holds were read from
  \<open>allPackages\<close>, so their keys are present; for any other key the reads give the zero
  value, and ImportedPackageComputedNames a nil dereference.
\<close>

definition index_of :: "tarjan_state \<Rightarrow> gostring \<Rightarrow> nat" where
  "index_of st v = (case map_of (pkgs st) v of Some p \<Rightarrow> index p | None \<Rightarrow> 0)"

definition lowlink_of :: "tarjan_state \<Rightarrow> gostring \<Rightarrow> nat" where
  "lowlink_of st v = (case map_of (pkgs st) v of Some p \<Rightarrow> lowlink p | None \<Rightarrow> 0)"

definition onStack_of :: "tarjan_state \<Rightarrow> gostring \<Rightarrow> bool" where
  "onStack_of st v = (case map_of (pkgs st) v of Some p \<Rightarrow> onStack p | None \<Rightarrow> False)"

definition imports_of :: "(gostring \<times> PackageInfo) list \<Rightarrow> gostring \<Rightarrow> panic + gostring list" where
  "imports_of pk v =
     (case map_of pk v of Some p \<Rightarrow> ImportedPackageComputedNames p | None \<Rightarrow> Inl NilDereference)"

definition set_lowlink :: "gostring \<Rightarrow> nat \<Rightarrow> tarjan_state \<Rightarrow> tarjan_state" where
  "set_lowlink v l st = st\<lparr>pkgs := modify v (\<lambda>p. p\<lparr>lowlink := l\<rparr>) (pkgs st)\<rparr>"

text \<open>The first five statements of strongConnect.\<close>

definition enter :: "gostring \<Rightarrow> tarjan_state \<Rightarrow> tarjan_state" where
  "enter v st =
     st\<lparr>pkgs := modify v (\<lambda>p. p\<lparr>index := next_index st, lowlink := next_index st,
                                  onStack := True\<rparr>) (pkgs st),
        next_index := next_index st + 1,
        stack := stack st @ [v]\<rparr>"

text \<open>
  The loop that pops the stack until it has popped \<open>v\<close>; the stack is given top first. The
  loop body runs at least once; on an empty stack \<open>s[len(s)-1]\<close> panics.
\<close>

fun pop_loop ::
  "gostring \<Rightarrow> gostring list \<Rightarrow> gostring list \<Rightarrow> (gostring \<times> PackageInfo) list \<Rightarrow>
     panic + gostring list \<times> gostring list \<times> (gostring \<times> PackageInfo) list" where
  "pop_loop v scc [] pk = Inl IndexOutOfRange"
| "pop_loop v scc (w # below) pk =
     (let pk' = modify w (\<lambda>p. p\<lparr>onStack := False\<rparr>) pk;
          scc' = scc @ [w]
      in if w = v then Inr (scc', below, pk') else pop_loop v scc' below pk')"

definition pop_scc :: "gostring \<Rightarrow> tarjan_state \<Rightarrow> panic + tarjan_state" where
  "pop_scc v st =
     (case pop_loop v [] (rev (stack st)) (pkgs st) of
        Inl e \<Rightarrow> Inl e
      | Inr (scc, below, pk) \<Rightarrow> Inr (st\<lparr>stack := rev below, pkgs := pk, sccs := sccs st @ [scc]\<rparr>))"

text \<open>
  strongConnect and its loop over the successors of \<open>v\<close>. The recursion is bounded by a
  depth: \<open>None\<close> is the result when the bound is reached, \<open>Some (Inl e)\<close> a panic.
\<close>

fun strongConnect :: "nat \<Rightarrow> gostring \<Rightarrow> tarjan_state \<Rightarrow> (panic + tarjan_state) option"
and visit_successors ::
  "nat \<Rightarrow> gostring \<Rightarrow> gostring list \<Rightarrow> tarjan_state \<Rightarrow> (panic + tarjan_state) option" where
  "strongConnect 0 v st = None"
| "strongConnect (Suc n) v st =
     (let st1 = enter v st in
      case imports_of (pkgs st1) v of
        Inl e \<Rightarrow> Some (Inl e)
      | Inr names \<Rightarrow>
          (case visit_successors n v names st1 of
             None \<Rightarrow> None
           | Some (Inl e) \<Rightarrow> Some (Inl e)
           | Some (Inr st2) \<Rightarrow>
               if lowlink_of st2 v = index_of st2 v then Some (pop_scc v st2)
               else Some (Inr st2)))"
| "visit_successors n v [] st = Some (Inr st)"
| "visit_successors n v (wName # rest) st =
     (case map_of (pkgs st) wName of
        None \<Rightarrow> Some (Inl (NotFound wName))
      | Some w \<Rightarrow>
          if index w = 0 then
            (case strongConnect n wName st of
               None \<Rightarrow> None
             | Some (Inl e) \<Rightarrow> Some (Inl e)
             | Some (Inr st1) \<Rightarrow>
                 visit_successors n v rest
                   (if lowlink_of st1 wName < lowlink_of st1 v
                    then set_lowlink v (lowlink_of st1 wName) st1 else st1))
          else
            visit_successors n v rest
              (if onStack w \<and> index w < lowlink_of st v then set_lowlink v (index w) st
               else st))"

text \<open>The loop of tarjan over the needed packages, in the order of packagesInOrder.\<close>

fun tarjan_loop :: "nat \<Rightarrow> gostring list \<Rightarrow> tarjan_state \<Rightarrow> (panic + tarjan_state) option" where
  "tarjan_loop n [] st = Some (Inr st)"
| "tarjan_loop n (name # rest) st =
     (case map_of (pkgs st) name of
        None \<Rightarrow> Some (Inl NilDereference)
      | Some pkg \<Rightarrow>
          if index pkg = 0 then
            (case strongConnect n name st of
               None \<Rightarrow> None
             | Some (Inl e) \<Rightarrow> Some (Inl e)
             | Some (Inr st') \<Rightarrow> tarjan_loop n rest st')
          else tarjan_loop n rest st)"

text \<open>
  tarjan. The depth of the recursion is bounded by the number of packages, since every call
  of strongConnect marks a package that was not marked.
\<close>

definition tarjan_start :: "Wrapper \<Rightarrow> tarjan_state" where
  "tarjan_start wr = \<lparr>next_index = 1, sccs = [], stack = [], pkgs = allPackages wr\<rparr>"

definition tarjan :: "Wrapper \<Rightarrow> (panic + gostring list list) option" where
  "tarjan wr =
     (case tarjan_loop (length (allPackages wr)) (packagesInOrder wr) (tarjan_start wr) of
        None \<Rightarrow> None
      | Some (Inl e) \<Rightarrow> Some (Inl e)
      | Some (Inr st) \<Rightarrow> Some (Inr (sccs st)))"

text \<open>
  CheckCycles. The error holds the components of more than one package; its text is built
  from them by showComponent. The results: \<open>None\<close> for a recursion cut by the bound,
  \<open>Some (Inl e)\<close> for a panic, \<open>Some (Inr None)\<close> for nil and \<open>Some (Inr (Some e))\<close> for the
  error.
\<close>

datatype cycles_error = CyclesFound "gostring list list"

definition CheckCycles :: "Wrapper \<Rightarrow> (panic + cycles_error option) option" where
  "CheckCycles w =
     (case tarjan w of
        None \<Rightarrow> None
      | Some (Inl e) \<Rightarrow> Some (Inl e)
      | Some (Inr components) \<Rightarrow>
          (let cycles = filter (\<lambda>scc. length scc > 1) components
           in if length cycles > 0 then Some (Inr (Some (CyclesFound cycles)))
              else Some (Inr None)))"

subsection \<open>Notions for the analysis of tarjan\<close>

text \<open>
  The keys of the store; the effect of the pop loop on the store (onStack cleared for the
  packages popped); the packages not yet marked with an index.
\<close>

definition keys_of :: "tarjan_state \<Rightarrow> gostring set" where
  "keys_of st = fst ` set (pkgs st)"

definition clear_onStack ::
  "gostring list \<Rightarrow> (gostring \<times> PackageInfo) list \<Rightarrow> (gostring \<times> PackageInfo) list" where
  "clear_onStack ws pk = fold (\<lambda>w. modify w (\<lambda>p. p\<lparr>onStack := False\<rparr>)) ws pk"

definition unvisited :: "tarjan_state \<Rightarrow> gostring set" where
  "unvisited st = {k \<in> keys_of st. index_of st k = 0}"

text \<open>
  What every step of the traversal keeps: the keys and the imports of every package, the
  index of a package once it is set; the counter never decreases, and a package gets an index
  only if its imports were computed without a panic.
\<close>

definition mono :: "tarjan_state \<Rightarrow> tarjan_state \<Rightarrow> bool" where
  "mono st st' \<longleftrightarrow>
     keys_of st' = keys_of st \<and> length (pkgs st') = length (pkgs st) \<and>
     (\<forall>x. imports_of (pkgs st') x = imports_of (pkgs st) x) \<and>
     next_index st \<le> next_index st' \<and>
     (\<forall>x. index_of st x \<noteq> 0 \<longrightarrow> index_of st' x = index_of st x) \<and>
     (\<forall>x. index_of st x = 0 \<and> index_of st' x \<noteq> 0 \<longrightarrow>
          (\<exists>names. imports_of (pkgs st) x = Inr names))"

text \<open>
  A wrapper as Init leaves it: the fields index and onStack of every package have their zero
  values.
\<close>

definition fresh :: "Wrapper \<Rightarrow> bool" where
  "fresh wr \<longleftrightarrow> list_all (\<lambda>(k, p). index p = 0 \<and> \<not> onStack p) (allPackages wr)"

text \<open>
  The import graph of the packages: an edge from a package to each name that
  ImportedPackageComputedNames returns for it (no edge from a package for which it panics,
  or from a name with no package). The packages that tarjan can reach: those reachable from
  the needed packages along import edges.
\<close>

definition import_edges :: "(gostring \<times> PackageInfo) list \<Rightarrow> (gostring \<times> gostring) set" where
  "import_edges pk = {(v, w). \<exists>names. imports_of pk v = Inr names \<and> w \<in> set names}"

definition reachable :: "Wrapper \<Rightarrow> gostring set" where
  "reachable wr = (import_edges (allPackages wr))\<^sup>* `` set (packages wr)"

text \<open>
  Two further relations between states of the traversal. \<open>settled\<close>: every package marked
  between the two states has its imports computed, and all of them are marked.
  \<open>resolved\<close>: a set of packages that contains the imports of each of its members, all
  computed without a panic.
\<close>

definition settled :: "tarjan_state \<Rightarrow> tarjan_state \<Rightarrow> bool" where
  "settled st st' \<longleftrightarrow>
     (\<forall>x. index_of st x = 0 \<and> index_of st' x \<noteq> 0 \<longrightarrow>
        (\<exists>names. imports_of (pkgs st') x = Inr names \<and> (\<forall>w \<in> set names. index_of st' w \<noteq> 0)))"

definition resolved :: "gostring set \<Rightarrow> tarjan_state \<Rightarrow> bool" where
  "resolved R st \<longleftrightarrow>
     (\<forall>x \<in> R. \<exists>names. imports_of (pkgs st) x = Inr names \<and> set names \<subseteq> R)"

subsection \<open>Notions for the correctness of tarjan\<close>

text \<open>
  Entries of allPackages are stored under their own ComputedPackage, as CollectPackages
  stores them.
\<close>

definition keyed :: "Wrapper \<Rightarrow> bool" where
  "keyed wr \<longleftrightarrow> list_all (\<lambda>(k, p). PkgComputedPackage p = k) (allPackages wr)"

text \<open>
  The graph that the traversal sees: a set \<open>K\<close> of packages with the list \<open>G v\<close> of the
  imports of each; it is closed when the imports of a package of \<open>K\<close> are in \<open>K\<close> and are
  not the package itself. \<open>graph_ok\<close>: the store agrees with the graph.
\<close>

definition edges :: "gostring set \<Rightarrow> (gostring \<Rightarrow> gostring list) \<Rightarrow> (gostring \<times> gostring) set" where
  "edges K G = {(v, w). v \<in> K \<and> w \<in> set (G v)}"

definition closed_graph :: "gostring set \<Rightarrow> (gostring \<Rightarrow> gostring list) \<Rightarrow> bool" where
  "closed_graph K G \<longleftrightarrow> (\<forall>v \<in> K. set (G v) \<subseteq> K \<and> v \<notin> set (G v))"

definition graph_ok :: "gostring set \<Rightarrow> (gostring \<Rightarrow> gostring list) \<Rightarrow> tarjan_state \<Rightarrow> bool" where
  "graph_ok K G st \<longleftrightarrow> K \<subseteq> keys_of st \<and> (\<forall>v \<in> K. imports_of (pkgs st) v = Inr (G v))"

text \<open>
  The packages of the components found so far, and the invariants of the traversal.
  \<open>inv_struct\<close>: indices are below the counter and identify the packages; the stack has
  no repetition, holds the packages marked onStack, in the order of their indices; a
  package with an index is on the stack or in a component found. \<open>inv_low\<close>: the lowlink
  of a package on the stack is the index of a package on the stack that it reaches.
  \<open>inv_sound\<close>: the packages of a component found reach each other, and a package with
  an index is reachable from the roots \<open>R\<close>.
\<close>

definition components :: "tarjan_state \<Rightarrow> gostring set" where
  "components st = \<Union> (set ` set (sccs st))"

definition inv_struct :: "tarjan_state \<Rightarrow> bool" where
  "inv_struct st \<longleftrightarrow>
     0 < next_index st \<and>
     (\<forall>x. index_of st x < next_index st) \<and>
     (\<forall>x y. index_of st x = index_of st y \<and> index_of st x \<noteq> 0 \<longrightarrow> x = y) \<and>
     distinct (stack st) \<and>
     (\<forall>x. onStack_of st x \<longleftrightarrow> x \<in> set (stack st)) \<and>
     (\<forall>x \<in> set (stack st). index_of st x \<noteq> 0) \<and>
     sorted_wrt (\<lambda>a b. index_of st a < index_of st b) (stack st) \<and>
     (\<forall>x. index_of st x \<noteq> 0 \<and> x \<notin> set (stack st) \<longrightarrow> x \<in> components st) \<and>
     (\<forall>x \<in> components st. index_of st x \<noteq> 0 \<and> x \<notin> set (stack st))"

definition inv_low :: "(gostring \<times> gostring) set \<Rightarrow> tarjan_state \<Rightarrow> bool" where
  "inv_low E st \<longleftrightarrow>
     (\<forall>x \<in> set (stack st). lowlink_of st x \<le> index_of st x \<and>
        (\<exists>t \<in> set (stack st). index_of st t = lowlink_of st x \<and> (x, t) \<in> E\<^sup>*))"

definition inv_sound :: "(gostring \<times> gostring) set \<Rightarrow> gostring set \<Rightarrow> tarjan_state \<Rightarrow> bool" where
  "inv_sound E R st \<longleftrightarrow>
     (\<forall>c \<in> set (sccs st). distinct c \<and> c \<noteq> [] \<and> (\<forall>x \<in> set c. \<forall>y \<in> set c. (x, y) \<in> E\<^sup>*)) \<and>
     (\<forall>x. index_of st x \<noteq> 0 \<longrightarrow> x \<in> E\<^sup>* `` R)"

text \<open>
  \<open>bad\<close>: a cycle has been seen, either a component of two packages or more was found, or
  a package on the stack has a lowlink below its index. \<open>topo\<close>: every edge from a
  component leads to a component found before it. As long as no cycle has been seen, the
  components found are in this order (\<open>inv_compl\<close>).
\<close>

definition bad :: "tarjan_state \<Rightarrow> bool" where
  "bad st \<longleftrightarrow>
     (\<exists>c \<in> set (sccs st). 2 \<le> length c) \<or>
     (\<exists>x \<in> set (stack st). lowlink_of st x < index_of st x)"

definition topo :: "(gostring \<times> gostring) set \<Rightarrow> gostring list list \<Rightarrow> bool" where
  "topo E cs \<longleftrightarrow>
     (\<forall>i < length cs. \<forall>x \<in> set (cs ! i). \<forall>y. (x, y) \<in> E \<longrightarrow> (\<exists>j < i. y \<in> set (cs ! j)))"

definition inv_compl :: "(gostring \<times> gostring) set \<Rightarrow> tarjan_state \<Rightarrow> bool" where
  "inv_compl E st \<longleftrightarrow> bad st \<or> topo E (sccs st)"

definition Inv ::
  "gostring set \<Rightarrow> (gostring \<Rightarrow> gostring list) \<Rightarrow> gostring set \<Rightarrow> tarjan_state \<Rightarrow> bool" where
  "Inv K G R st \<longleftrightarrow>
     graph_ok K G st \<and> inv_struct st \<and> inv_low (edges K G) st \<and>
     inv_sound (edges K G) R st \<and> inv_compl (edges K G) st"

text \<open>
  What a call of strongConnect on \<open>v\<close> changes (\<open>grows\<close>), what the loop over the imports
  of \<open>v\<close> changes (\<open>loop_rel\<close>), the state during this loop (\<open>loop_state\<close>: the stack is
  \<open>s0\<close>, \<open>v\<close>, and packages reached from \<open>v\<close> whose lowlink is below their index), and the
  postconditions of the call and of the loop.
\<close>

definition grows :: "(gostring \<times> gostring) set \<Rightarrow> gostring \<Rightarrow> tarjan_state \<Rightarrow> tarjan_state \<Rightarrow> bool" where
  "grows E v st st' \<longleftrightarrow>
     next_index st \<le> next_index st' \<and>
     (\<forall>x. index_of st x \<noteq> 0 \<longrightarrow>
          index_of st' x = index_of st x \<and> lowlink_of st' x = lowlink_of st x) \<and>
     (\<forall>x. index_of st x = 0 \<and> index_of st' x \<noteq> 0 \<longrightarrow>
          (v, x) \<in> E\<^sup>* \<and> next_index st \<le> index_of st' x) \<and>
     (\<exists>new. sccs st' = sccs st @ new) \<and>
     (bad st \<longrightarrow> bad st')"

definition loop_rel :: "(gostring \<times> gostring) set \<Rightarrow> gostring \<Rightarrow> tarjan_state \<Rightarrow> tarjan_state \<Rightarrow> bool" where
  "loop_rel E v st st' \<longleftrightarrow>
     next_index st \<le> next_index st' \<and>
     (\<forall>x. index_of st x \<noteq> 0 \<longrightarrow> index_of st' x = index_of st x) \<and>
     (\<forall>x. index_of st x \<noteq> 0 \<and> x \<noteq> v \<longrightarrow> lowlink_of st' x = lowlink_of st x) \<and>
     lowlink_of st' v \<le> lowlink_of st v \<and>
     (\<forall>x. index_of st x = 0 \<and> index_of st' x \<noteq> 0 \<longrightarrow>
          (v, x) \<in> E\<^sup>* \<and> next_index st \<le> index_of st' x) \<and>
     (\<exists>new. sccs st' = sccs st @ new) \<and>
     (bad st \<longrightarrow> bad st')"

definition loop_state ::
  "(gostring \<times> gostring) set \<Rightarrow> gostring \<Rightarrow> gostring list \<Rightarrow> gostring list \<Rightarrow> tarjan_state \<Rightarrow> bool" where
  "loop_state E v s0 rest st \<longleftrightarrow>
     stack st = s0 @ v # rest \<and>
     (\<forall>x \<in> set rest. lowlink_of st x < index_of st x \<and> lowlink_of st v \<le> lowlink_of st x
        \<and> (v, x) \<in> E\<^sup>*)"

definition post_sc ::
  "gostring set \<Rightarrow> (gostring \<Rightarrow> gostring list) \<Rightarrow> gostring set \<Rightarrow> gostring \<Rightarrow>
     tarjan_state \<Rightarrow> tarjan_state \<Rightarrow> bool" where
  "post_sc K G R v st st' \<longleftrightarrow>
     Inv K G R st' \<and> grows (edges K G) v st st' \<and> index_of st' v \<noteq> 0 \<and>
     (stack st' = stack st \<and> lowlink_of st' v = index_of st' v \<or>
      (\<exists>rest. stack st' = stack st @ v # rest \<and>
         (\<forall>x \<in> set (v # rest). lowlink_of st' x < index_of st' x
            \<and> lowlink_of st' v \<le> lowlink_of st' x)))"

definition post_loop ::
  "gostring set \<Rightarrow> (gostring \<Rightarrow> gostring list) \<Rightarrow> gostring set \<Rightarrow> gostring \<Rightarrow> gostring list \<Rightarrow>
     gostring list \<Rightarrow> tarjan_state \<Rightarrow> tarjan_state \<Rightarrow> bool" where
  "post_loop K G R v s0 ws st st' \<longleftrightarrow>
     Inv K G R st' \<and> (\<exists>rest'. loop_state (edges K G) v s0 rest' st') \<and>
     loop_rel (edges K G) v st st' \<and>
     (bad st' \<or> set ws \<subseteq> components st')"

section \<open>Properties\<close>

subsection \<open>Disjoint\<close>

lemma fold_insert_set: "fold insert xs A = set xs \<union> A"
  by (induction xs arbitrary: A) auto

lemma first_occurrences_set: "set (first_occurrences xs) = set xs"
  by (induction xs) auto

lemma first_occurrences_distinct: "distinct (first_occurrences xs)"
  by (induction xs) auto

lemma first_occurrences_filter:
  "first_occurrences (filter P xs) = filter P (first_occurrences xs)"
proof (induction xs)
  case Nil
  show ?case by simp
next
  case (Cons x xs)
  show ?case
  proof (cases "P x")
    case True
    have "filter P (filter (\<lambda>y. y \<noteq> x) (first_occurrences xs))
          = filter (\<lambda>y. y \<noteq> x) (filter P (first_occurrences xs))"
      by (simp add: conj_commute)
    with True Cons show ?thesis by simp
  next
    case False
    have "filter P (filter (\<lambda>y. y \<noteq> x) (first_occurrences xs))
          = filter P (first_occurrences xs)"
      using False by (auto intro: filter_cong)
    with False Cons show ?thesis by simp
  qed
qed

lemma Disjoint_loop_spec:
  "Disjoint_loop seen result xs
   = result @ first_occurrences (filter (\<lambda>p. p \<notin> seen) xs)"
proof (induction xs arbitrary: seen result)
  case Nil
  show ?case by simp
next
  case (Cons x xs)
  show ?case
  proof (cases "x \<in> seen")
    case True
    with Cons show ?thesis by simp
  next
    case False
    have "filter (\<lambda>p. p \<notin> insert x seen) xs
          = filter (\<lambda>y. y \<noteq> x) (filter (\<lambda>p. p \<notin> seen) xs)"
      by (induction xs) auto
    then have "first_occurrences (filter (\<lambda>p. p \<notin> insert x seen) xs)
          = filter (\<lambda>y. y \<noteq> x) (first_occurrences (filter (\<lambda>p. p \<notin> seen) xs))"
      by (simp only: first_occurrences_filter)
    with False Cons show ?thesis by simp
  qed
qed

lemma Disjoint_eq_spec: "Disjoint existing additional = Disjoint_spec existing additional"
  by (simp add: Disjoint_def Disjoint_spec_def Disjoint_loop_spec fold_insert_set)

lemma Disjoint_distinct: "distinct (Disjoint existing additional)"
  by (simp add: Disjoint_eq_spec Disjoint_spec_def first_occurrences_distinct)

lemma Disjoint_set: "set (Disjoint existing additional) = set additional - set existing"
  by (auto simp: Disjoint_eq_spec Disjoint_spec_def first_occurrences_set)

text \<open>
  C9, as stated, fails: Init copies ProtoFiles as given, so a path the caller passes twice
  appears twice in allProtos.
\<close>

theorem Init_allProtos_duplicate_counterexample:
  "Init_allProtos False [''a.proto'', ''a.proto''] (Inr [''a.proto'', ''b.proto''])
     = Inr [''a.proto'', ''a.proto'', ''b.proto'']
   \<and> \<not> distinct [''a.proto'', ''a.proto'', ''b.proto'']"
  by (simp add: Init_allProtos_def Disjoint_def)

text \<open>
  C9 (amended). Disjoint returns exactly the elements of \<open>additional\<close> that do not occur in
  \<open>existing\<close>, each at its first occurrence only and in their order. When ProtosBelow
  succeeds, allProtos is ProtoFiles followed by the newly discovered files (none when
  NoExpand is set); no discovered file appears twice or repeats an entry of ProtoFiles,
  and allProtos is free of duplicates exactly when ProtoFiles is.
\<close>

theorem Disjoint_Init_allProtos:
  "Disjoint existing additional = Disjoint_spec existing additional
   \<and> (Init_allProtos NoExpand ProtoFiles (Inr neighbors) = Inr allProtos \<longrightarrow>
        allProtos = ProtoFiles @ (if NoExpand then [] else Disjoint_spec ProtoFiles neighbors)
        \<and> distinct (drop (length ProtoFiles) allProtos)
        \<and> set (drop (length ProtoFiles) allProtos) \<inter> set ProtoFiles = {}
        \<and> (distinct allProtos \<longleftrightarrow> distinct ProtoFiles))"
proof -
  have d: "distinct (Disjoint ProtoFiles neighbors)"
    by (rule Disjoint_distinct)
  have s: "set (Disjoint ProtoFiles neighbors) \<inter> set ProtoFiles = {}"
    by (auto simp: Disjoint_set)
  show ?thesis
  proof (cases NoExpand)
    case True
    then show ?thesis
      by (auto simp: Init_allProtos_def Disjoint_eq_spec)
  next
    case False
    then show ?thesis
      using d s by (auto simp: Init_allProtos_def Disjoint_eq_spec)
  qed
qed

theorem Disjoint_Init_allProtos_witness:
  "Disjoint [''a.proto''] [''b.proto'', ''a.proto'', ''b.proto''] = [''b.proto'']
   \<and> Init_allProtos False [''a.proto''] (Inr [''b.proto'', ''a.proto'', ''b.proto''])
       = Inr [''a.proto'', ''b.proto'']
   \<and> distinct [''a.proto'', ''b.proto'']"
proof -
  have h: "Init_allProtos False [''a.proto''] (Inr [''b.proto'', ''a.proto'', ''b.proto''])
           = Inr [''a.proto'', ''b.proto'']"
    by (simp add: Init_allProtos_def Disjoint_def)
  show ?thesis
    using h Disjoint_Init_allProtos [of "[''a.proto'']" "[''b.proto'', ''a.proto'', ''b.proto'']"
        False "[''a.proto'']" "[''b.proto'', ''a.proto'', ''b.proto'']" "[''a.proto'', ''b.proto'']"]
    by (simp add: Disjoint_spec_def)
qed

subsection \<open>ParseArgs\<close>

lemma step_refused: "refused arg \<Longrightarrow> ParseArgs_step custom st arg = Inl (FlagNotAllowed arg)"
  by (auto simp: refused_def ParseArgs_step_def)

lemma dash_shape:
  assumes "\<not> refused arg" "arg ! 0 = CHR ''-''"
  shows "\<exists>c rest. arg = CHR ''-'' # c # rest"
proof (cases arg)
  case Nil
  with assms show ?thesis by (simp add: refused_def)
next
  case (Cons a as)
  with assms show ?thesis by (cases as) (auto simp: refused_def)
qed

lemma step_free:
  assumes nr: "\<not> refused arg" and np: "\<not> pending st" and inv: "flags_inv st"
  shows "\<exists>st'. ParseArgs_step custom st arg = Inr st'
      \<and> pending st' = expects_value custom arg
      \<and> nextIsImportDir st' = (arg = ''-I'')
      \<and> flags_inv st'
      \<and> importDirs st' = importDirs st @
           (if \<not> expects_value custom arg \<and> take 2 arg = ''-I'' then [drop 2 arg] else [])"
proof -
  from np inv have f: "\<not> nextIsFlag st" "\<not> nextIsCustomFlag st" "\<not> nextIsImportDir st"
    by (auto simp: pending_def flags_inv_def)
  from nr have ne: "arg \<noteq> []" by (simp add: refused_def)
  show ?thesis
  proof (cases "noValueFlags arg")
    case True
    then have "arg \<noteq> ''-I''" "take 2 arg \<noteq> ''-I''" by (auto simp: noValueFlags_def)
    with True f nr show ?thesis
      by (simp add: ParseArgs_step_def refused_def pending_def flags_inv_def expects_value_def)
  next
    case nv: False
    show ?thesis
    proof (cases "arg ! 0 = CHR ''-''")
      case False
      with ne have "take 1 arg \<noteq> ''-''" "arg \<noteq> ''-I''" "take 2 arg \<noteq> ''-I''"
        by (cases arg; auto)+
      with False nv f nr ne show ?thesis
        by (simp add: ParseArgs_step_def refused_def pending_def flags_inv_def expects_value_def)
    next
      case True
      from dash_shape [OF nr True] obtain c rest where a: "arg = CHR ''-'' # c # rest" by blast
      show ?thesis
      proof (cases "c = CHR ''-''")
        case dd: True
        with a nr have r: "rest \<noteq> []" by (auto simp: refused_def)
        show ?thesis using a dd f nv r
          by (auto simp: ParseArgs_step_def pending_def flags_inv_def expects_value_def
              two_dashes_def SplitN_eq_2_def Let_def split: option.splits)
      next
        case od: False
        show ?thesis using a od f nv
          by (auto simp: ParseArgs_step_def pending_def flags_inv_def expects_value_def
              one_dash_def Let_def)
      qed
    qed
  qed
qed


lemma step_pending:
  assumes nr: "\<not> refused v" and p: "pending st" and inv: "flags_inv st"
  shows "\<exists>st'. ParseArgs_step custom st v = Inr st'
      \<and> \<not> pending st' \<and> flags_inv st'
      \<and> importDirs st' = importDirs st @ (if nextIsImportDir st then [v] else [])"
  using assms
  by (auto simp: ParseArgs_step_def refused_def pending_def flags_inv_def Let_def)

lemma step_passed_through:
  assumes "ParseArgs_step custom st arg = Inr st'" "passed_through st"
  shows "passed_through st'"
proof -
  have one: "passed_through (one_dash st arg)"
    if "1 < length arg" "arg ! 0 = CHR ''-''"
  proof -
    from that obtain c rest where a: "arg = CHR ''-'' # c # rest"
      by (cases arg; cases "tl arg"; auto)
    show ?thesis using assms(2) a
      by (auto simp: passed_through_def one_dash_def Let_def list_all_iff)
  qed
  have two: "passed_through (two_dashes custom st arg)"
    using assms(2)
    by (auto simp: passed_through_def two_dashes_def Let_def list_all_iff split: option.splits)
  show ?thesis
    using assms one two
    by (auto simp: ParseArgs_step_def Let_def passed_through_def list_all_iff
        split: if_splits)
qed

lemma loop_passed_through:
  "ParseArgs_loop custom st args = Inr st' \<Longrightarrow> passed_through st \<Longrightarrow> passed_through st'"
proof (induction args arbitrary: st)
  case Nil
  then show ?case by simp
next
  case (Cons a args)
  then show ?case
    by (auto split: sum.splits dest: step_passed_through)
qed

lemma loop_accepts:
  "\<forall>a \<in> set args. \<not> refused a \<Longrightarrow> \<not> pending st \<Longrightarrow> flags_inv st \<Longrightarrow>
   \<exists>st'. ParseArgs_loop custom st args = Inr st'
      \<and> pending st' = awaits_value custom args
      \<and> importDirs st' = importDirs st @ I_values custom args"
proof (induction custom args arbitrary: st rule: awaits_value.induct)
  case (1 custom)
  then show ?case by simp
next
  case (2 custom arg)
  then have nr: "\<not> refused arg" by simp
  from step_free [OF nr "2.prems"(2,3), of custom] show ?case by auto
next
  case (3 custom arg v args)
  then have nr: "\<not> refused arg" and nrv: "\<not> refused v"
    and rest: "\<forall>a \<in> set args. \<not> refused a" by simp_all
  from step_free [OF nr "3.prems"(2,3), of custom] obtain st1 where
    s1: "ParseArgs_step custom st arg = Inr st1"
    and p1: "pending st1 = expects_value custom arg"
    and i1: "nextIsImportDir st1 = (arg = ''-I'')"
    and inv1: "flags_inv st1"
    and d1: "importDirs st1 = importDirs st @
           (if \<not> expects_value custom arg \<and> take 2 arg = ''-I'' then [drop 2 arg] else [])"
    by blast
  show ?case
  proof (cases "expects_value custom arg")
    case True
    with p1 have "pending st1" by simp
    from step_pending [OF nrv this inv1, of custom] obtain st2 where
      s2: "ParseArgs_step custom st1 v = Inr st2"
      and p2: "\<not> pending st2" and inv2: "flags_inv st2"
      and d2: "importDirs st2 = importDirs st1 @ (if nextIsImportDir st1 then [v] else [])"
      by blast
    from "3.IH"(1) [OF True rest p2 inv2] obtain st' where
      "ParseArgs_loop custom st2 args = Inr st'"
      "pending st' = awaits_value custom args"
      "importDirs st' = importDirs st2 @ I_values custom args" by blast
    with s1 s2 d1 d2 i1 True show ?thesis by simp
  next
    case False
    with p1 have np: "\<not> pending st1" by simp
    from "3.prems"(1) have "\<forall>a \<in> set (v # args). \<not> refused a" by simp
    from "3.IH"(2) [OF False this np inv1] obtain st' where
      "ParseArgs_loop custom st1 (v # args) = Inr st'"
      "pending st' = awaits_value custom (v # args)"
      "importDirs st' = importDirs st1 @ I_values custom (v # args)" by blast
    with s1 d1 False show ?thesis by simp
  qed
qed

lemma awaits_value_snoc:
  "awaits_value custom (args @ [arg])
   = (expects_value custom arg \<and> \<not> awaits_value custom args)"
  by (induction custom args rule: awaits_value.induct) auto

lemma init_facts: "\<not> pending ParseArgs_init" "flags_inv ParseArgs_init"
  "passed_through ParseArgs_init" "importDirs ParseArgs_init = []"
  by (simp_all add: pending_def flags_inv_def passed_through_def ParseArgs_init_def)


lemma ParseArgs_refused:
  assumes "\<exists>a \<in> set args. refused a"
  shows "\<exists>a \<in> set args. refused a \<and> ParseArgs args custom = Inl (FlagNotAllowed a)"
proof -
  have "\<exists>a \<in> set args. refused a \<and> ParseArgs_loop custom st args = Inl (FlagNotAllowed a)"
    if "\<exists>a \<in> set args. refused a" "flags_inv st" for st
    using that
  proof (induction args arbitrary: st)
    case Nil
    then show ?case by simp
  next
    case (Cons a args)
    show ?case
    proof (cases "refused a")
      case True
      then show ?thesis by (simp add: step_refused)
    next
      case False
      with Cons.prems have r: "\<exists>a \<in> set args. refused a" by simp
      have "\<exists>st'. ParseArgs_step custom st a = Inr st' \<and> flags_inv st'"
        using step_pending [OF False _ Cons.prems(2), of custom]
          step_free [OF False _ Cons.prems(2), of custom]
        by (cases "pending st") blast+
      then obtain st' where "ParseArgs_step custom st a = Inr st'" "flags_inv st'" by blast
      with Cons.IH [OF r, of st'] show ?thesis by auto
    qed
  qed
  from this [OF assms init_facts(2)] show ?thesis
    by (auto simp: ParseArgs_def)
qed

text \<open>
  C10. ParseArgs returns an error exactly when some argument is empty, \<open>-\<close> or \<open>--\<close>, or
  when the argument list awaits a value: its last argument is a flag that expects a value and
  is not itself the value of the flag before it. The error is one of the two that ParseArgs
  builds, never a panic. On success importDirs holds the values given to the single-dash
  \<open>-I\<close> flags, in order, and each of them is in protocFlags too, as the argument that
  follows \<open>-I\<close> or inside the argument \<open>-Ivalue\<close>.
\<close>

theorem ParseArgs_outcome:
  "((\<exists>e. ParseArgs args custom = Inl e)
      \<longleftrightarrow> (\<exists>a \<in> set args. refused a) \<or> awaits_value custom args)
   \<and> (awaits_value custom args
      \<longleftrightarrow> args \<noteq> [] \<and> expects_value custom (last args)
          \<and> \<not> awaits_value custom (butlast args))
   \<and> (\<forall>e. ParseArgs args custom = Inl e \<longrightarrow>
         (\<exists>a \<in> set args. refused a \<and> e = FlagNotAllowed a)
         \<or> e = FlagWithNoValue (last args))
   \<and> (\<forall>cf pf ps dirs. ParseArgs args custom = Inr (cf, pf, ps, dirs) \<longrightarrow>
         dirs = I_values custom args
         \<and> (\<forall>d \<in> set dirs. d \<in> set pf \<or> (''-I'' @ d) \<in> set pf))"
proof -
  have aw: "awaits_value custom args
      \<longleftrightarrow> args \<noteq> [] \<and> expects_value custom (last args)
          \<and> \<not> awaits_value custom (butlast args)"
  proof (cases args rule: rev_cases)
    case Nil
    then show ?thesis by simp
  next
    case (snoc ys y)
    then show ?thesis by (simp add: awaits_value_snoc)
  qed
  show ?thesis
  proof (cases "\<exists>a \<in> set args. refused a")
    case True
    from ParseArgs_refused [OF True, of custom] show ?thesis
      using aw by auto
  next
    case False
    then have nr: "\<forall>a \<in> set args. \<not> refused a" by simp
    from loop_accepts [OF nr init_facts(1,2), of custom] obtain st' where
      l: "ParseArgs_loop custom ParseArgs_init args = Inr st'"
      and p: "pending st' = awaits_value custom args"
      and d: "importDirs st' = I_values custom args"
      by (auto simp: init_facts)
    from loop_passed_through [OF l init_facts(3)] have pt: "passed_through st'" .
    show ?thesis
    proof (cases "awaits_value custom args")
      case True
      with aw have "args \<noteq> []" by simp
      with True l p aw False show ?thesis
        by (auto simp: ParseArgs_def pending_def)
    next
      case na: False
      with l p d pt False aw show ?thesis
        by (auto simp: ParseArgs_def pending_def passed_through_def list_all_iff)
    qed
  qed
qed

theorem ParseArgs_outcome_witness:
  "ParseArgs [''-I.'', ''foo1.proto'', ''-I'', ''includes'', ''--go_out=out'']
        [''parallelism'' \<mapsto> True]
     = Inr (Map.empty, [''-I.'', ''-I'', ''includes'', ''--go_out=out''], [''foo1.proto''],
            [''.'', ''includes''])
   \<and> I_values [''parallelism'' \<mapsto> True]
        [''-I.'', ''foo1.proto'', ''-I'', ''includes'', ''--go_out=out''] = [''.'', ''includes'']
   \<and> (\<exists>e. ParseArgs [''foo1.proto'', ''--parallelism''] [''parallelism'' \<mapsto> True] = Inl e)
   \<and> awaits_value [''parallelism'' \<mapsto> True] [''foo1.proto'', ''--parallelism'']"
proof -
  have a: "awaits_value [''parallelism'' \<mapsto> True] [''foo1.proto'', ''--parallelism'']"
    by (simp add: expects_value_def noValueFlags_def)
  have p: "ParseArgs [''-I.'', ''foo1.proto'', ''-I'', ''includes'', ''--go_out=out'']
        [''parallelism'' \<mapsto> True]
     = Inr (Map.empty, [''-I.'', ''-I'', ''includes'', ''--go_out=out''], [''foo1.proto''],
            [''.'', ''includes''])"
    by (simp add: ParseArgs_def ParseArgs_init_def ParseArgs_step_def noValueFlags_def
        one_dash_def two_dashes_def SplitN_eq_2_def Let_def)
  from ParseArgs_outcome [of "[''foo1.proto'', ''--parallelism'']" "[''parallelism'' \<mapsto> True]"] a
  have e: "\<exists>e. ParseArgs [''foo1.proto'', ''--parallelism''] [''parallelism'' \<mapsto> True] = Inl e"
    by blast
  from ParseArgs_outcome [of "[''-I.'', ''foo1.proto'', ''-I'', ''includes'', ''--go_out=out'']"
      "[''parallelism'' \<mapsto> True]"] p
  have "[''.'', ''includes''] = I_values [''parallelism'' \<mapsto> True]
        [''-I.'', ''foo1.proto'', ''-I'', ''includes'', ''--go_out=out'']"
    by blast
  with a p e show ?thesis by simp
qed

subsection \<open>ComputeGoLocations\<close>

lemma LastIndex_absent: "c \<notin> set s \<Longrightarrow> LastIndex s c = - 1"
  by (simp add: LastIndex_def)

lemma LastIndex_split:
  assumes "c \<notin> set post"
  shows "LastIndex (pre @ [c] @ post) c = int (length pre)"
proof -
  have "takeWhile (\<lambda>r. r \<noteq> c) (rev post @ c # rev pre) = rev post"
    using assms by (subst takeWhile_append2) auto
  then show ?thesis by (simp add: LastIndex_def)
qed

text \<open>
  C5. For a go_package whose only slash is its first character, \<open>strings.LastIndex\<close> is 0
  and the test \<open>slash > 0\<close> fails: the option is handled as one without a path separator.
  For \<open>/foo\<close> in the file \<open>a/b.proto\<close> the result is \<open>a;_foo\<close>, where the claim (and the
  comment on the test, "the presence of a slash implies there's an import path") gives
  \<open>/foo;foo\<close>.
\<close>

theorem ComputeGoLocation_leading_slash:
  "ComputedPackage (fst (ComputeGoLocation posix_ascii
      \<lparr>Name = go ''a/b.proto'', FullPath = [], Package = go ''p'', GoPackage = go ''/foo'',
       Deps = [], ComputedPackage = []\<rparr>)) = go ''a;_foo''"
  by (simp add: ComputeGoLocation_def posix_ascii_def go_def LastIndex_def Let_def
      strings_Map_def badToUnderscore_def)

lemma ComputeGoLocation_path:
  assumes "0 < LastIndex (GoPackage info) 47"
  shows "ComputedPackage (fst (ComputeGoLocation lib info))
     = (if 59 \<in> set (GoPackage info) then GoPackage info
        else GoPackage info @ [59] @ drop (nat (LastIndex (GoPackage info) 47 + 1)) (GoPackage info))"
  using assms by (simp add: ComputeGoLocation_def Let_def)

lemma takeWhile_short:
  assumes "c \<in> set s"
  shows "length (takeWhile (\<lambda>r. r \<noteq> c) (rev s)) < length s"
proof -
  have "c \<in> set (rev s)" using assms by simp
  then have "length (takeWhile (\<lambda>r. r \<noteq> c) (rev s)) < length (rev s)"
    by (metis (mono_tags, lifting) length_takeWhile_le le_neq_implies_less takeWhile_eq_all_conv
        takeWhile_eq_take take_all_iff length_rev order_refl)
  then show ?thesis by simp
qed

lemma LastIndex_present: "c \<in> set s \<Longrightarrow> 0 \<le> LastIndex s c"
  using takeWhile_short [of c s] by (simp add: LastIndex_def)

lemma drop_after_last:
  "drop (nat (LastIndex s c + 1)) s = rev (takeWhile (\<lambda>r. r \<noteq> c) (rev s))" if "c \<in> set s"
proof -
  let ?k = "length (takeWhile (\<lambda>r. r \<noteq> c) (rev s))"
  have "c \<in> set (rev s)" using that by simp
  then have "?k < length (rev s)"
    by (metis (mono_tags, lifting) length_takeWhile_le le_neq_implies_less takeWhile_eq_all_conv
        takeWhile_eq_take take_all_iff length_rev order_refl)
  then have k: "?k < length s" by simp
  then have "nat (LastIndex s c + 1) = length s - ?k"
    using that by (simp add: LastIndex_def)
  then have "drop (nat (LastIndex s c + 1)) s = rev (take ?k (rev s))"
    by (simp add: rev_take)
  also have "take ?k (rev s) = takeWhile (\<lambda>r. r \<noteq> c) (rev s)"
    by (rule takeWhile_eq_take [symmetric])
  finally show ?thesis .
qed

lemma take_before_last:
  "take (nat (LastIndex s c)) s = rev (tl (dropWhile (\<lambda>r. r \<noteq> c) (rev s)))" if "c \<in> set s"
proof -
  let ?k = "length (takeWhile (\<lambda>r. r \<noteq> c) (rev s))"
  have "c \<in> set (rev s)" using that by simp
  then have "?k < length (rev s)"
    by (metis (mono_tags, lifting) length_takeWhile_le le_neq_implies_less takeWhile_eq_all_conv
        takeWhile_eq_take take_all_iff length_rev order_refl)
  then have k: "?k < length s" by simp
  then have "nat (LastIndex s c) = length s - Suc ?k"
    using that by (simp add: LastIndex_def)
  then have "take (nat (LastIndex s c)) s = rev (drop (Suc ?k) (rev s))"
    by (simp add: rev_drop)
  also have "drop (Suc ?k) (rev s) = tl (drop ?k (rev s))"
    by (simp add: drop_Suc tl_drop)
  also have "drop ?k (rev s) = dropWhile (\<lambda>r. r \<noteq> c) (rev s)"
    by (rule dropWhile_eq_drop [symmetric])
  finally show ?thesis .
qed

lemma takeWhile_all_absent:
  assumes "c \<notin> set s"
  shows "rev (takeWhile (\<lambda>r. r \<noteq> c) (rev s)) = s"
proof -
  have t: "takeWhile (\<lambda>r. r \<noteq> c) (rev s) = rev s"
    using assms by (auto simp: takeWhile_eq_all_conv)
  show ?thesis unfolding t by (rule rev_rev_ident)
qed

lemma baseName_explicit:
  "baseName name =
     (let element = rev (takeWhile (\<lambda>r. r \<noteq> 47) (rev name))
      in if 46 \<in> set element then rev (tl (dropWhile (\<lambda>r. r \<noteq> 46) (rev element)))
         else element)"
proof -
  let ?element = "rev (takeWhile (\<lambda>r. r \<noteq> 47) (rev name))"
  have 1: "(let i = LastIndex name 47 in if i \<ge> 0 then drop (nat (i + 1)) name else name)
           = ?element"
  proof (cases "47 \<in> set name")
    case True
    then have "0 \<le> LastIndex name 47" by (rule LastIndex_present)
    with True show ?thesis by (simp add: Let_def drop_after_last)
  next
    case False
    then show ?thesis by (simp add: LastIndex_def takeWhile_all_absent)
  qed
  have 2: "(let j = LastIndex e 46 in if j \<ge> 0 then take (nat j) e else e)
           = (if 46 \<in> set e then rev (tl (dropWhile (\<lambda>r. r \<noteq> 46) (rev e))) else e)" for e
  proof (cases "46 \<in> set e")
    case True
    then have "0 \<le> LastIndex e 46" by (rule LastIndex_present)
    with True show ?thesis by (simp add: Let_def take_before_last)
  next
    case False
    then show ?thesis by (simp add: LastIndex_def)
  qed
  show ?thesis
    unfolding baseName_def 1 [unfolded Let_def] Let_def using 2 [unfolded Let_def] by simp
qed

text \<open>
  C6. For a file whose go_package has no slash, ComputedPackage is the directory of the
  file's name, a semicolon, and the declared name with every rune that is not a letter, a
  digit or an underscore replaced by an underscore; the declared name is the go_package if
  it is not empty, else the declared package if it is not empty, else the base name of the
  file without its extension: the text of the name after its last slash (the whole name
  if it has none), cut before its last dot (not cut if it has none). In that last case, and
  only then, a warning with the file's name is produced; ComputeGoLocation has no error
  result.
\<close>

theorem ComputeGoLocation_no_separator:
  assumes "47 \<notin> set (GoPackage info)"
  shows "(let element = rev (takeWhile (\<lambda>r. r \<noteq> 47) (rev (Name info)));
              base = (if 46 \<in> set element
                      then rev (tl (dropWhile (\<lambda>r. r \<noteq> 46) (rev element)))
                      else element);
              declared = (if GoPackage info \<noteq> [] then GoPackage info
                          else if Package info \<noteq> [] then Package info
                          else base)
          in ComputedPackage (fst (ComputeGoLocation lib info))
             = filepath_Dir lib (Name info) @ [59] @
               map (\<lambda>r. if unicode_IsLetter lib r \<or> unicode_IsDigit lib r \<or> r = 95
                         then r else 95) declared)
     \<and> snd (ComputeGoLocation lib info)
       = (if GoPackage info = [] \<and> Package info = [] then Some (NoPackageWarning (Name info))
          else None)"
  using assms baseName_explicit [of "Name info"]
  by (auto simp: ComputeGoLocation_def Let_def LastIndex_absent strings_Map_def badToUnderscore_def)

lemma baseName_shape:
  assumes "47 \<notin> set b" "47 \<notin> set e" "46 \<notin> set e"
  shows "baseName (d @ [47] @ b @ [46] @ e) = b"
proof -
  let ?name = "d @ [47] @ b @ [46] @ e" and ?name1 = "b @ [46] @ e"
  from assms have n: "47 \<notin> set ?name1" by simp
  have 1: "LastIndex ?name 47 = int (length d)"
    using LastIndex_split [OF n, of d] by simp
  have 2: "LastIndex ?name1 46 = int (length b)"
    using assms(3) by (rule LastIndex_split)
  have "nat (int (length d) + 1) = Suc (length d)" by simp
  then have 3: "drop (nat (LastIndex ?name 47 + 1)) ?name = ?name1"
    unfolding 1 by simp
  have 4: "take (nat (LastIndex ?name1 46)) ?name1 = b"
    unfolding 2 by simp
  have "baseName ?name = take (nat (LastIndex ?name1 46)) ?name1"
    unfolding baseName_def Let_def 3 using 1 2 by simp
  with 4 show ?thesis by simp
qed

theorem ComputeGoLocation_no_separator_witness:
  "ComputeGoLocation posix_ascii
      \<lparr>Name = go ''a/foo-bar.proto'', FullPath = [], Package = go ''foo-bar.baz'', GoPackage = [],
       Deps = [], ComputedPackage = []\<rparr>
   = (\<lparr>Name = go ''a/foo-bar.proto'', FullPath = [], Package = go ''foo-bar.baz'', GoPackage = [],
       Deps = [], ComputedPackage = go ''a;foo_bar_baz''\<rparr>, None)
   \<and> ComputeGoLocation posix_ascii
      \<lparr>Name = go ''a/foo-bar.v1.proto'', FullPath = [], Package = [], GoPackage = [],
       Deps = [], ComputedPackage = []\<rparr>
   = (\<lparr>Name = go ''a/foo-bar.v1.proto'', FullPath = [], Package = [], GoPackage = [],
       Deps = [], ComputedPackage = go ''a;foo_bar_v1''\<rparr>,
      Some (NoPackageWarning (go ''a/foo-bar.v1.proto'')))"
proof -
  let ?i1 = "\<lparr>Name = go ''a/foo-bar.proto'', FullPath = [], Package = go ''foo-bar.baz'',
       GoPackage = [], Deps = [], ComputedPackage = []\<rparr>"
  let ?i2 = "\<lparr>Name = go ''a/foo-bar.v1.proto'', FullPath = [], Package = [],
       GoPackage = [], Deps = [], ComputedPackage = []\<rparr>"
  have h1: "47 \<notin> set (GoPackage ?i1)" and h2: "47 \<notin> set (GoPackage ?i2)" by simp_all
  have u1: "fst (ComputeGoLocation posix_ascii ?i1) = ?i1\<lparr>ComputedPackage :=
       ComputedPackage (fst (ComputeGoLocation posix_ascii ?i1))\<rparr>"
    and u2: "fst (ComputeGoLocation posix_ascii ?i2) = ?i2\<lparr>ComputedPackage :=
       ComputedPackage (fst (ComputeGoLocation posix_ascii ?i2))\<rparr>"
    by (simp_all add: ComputeGoLocation_def Let_def)
  from ComputeGoLocation_no_separator [OF h1, of posix_ascii]
  have c1: "ComputedPackage (fst (ComputeGoLocation posix_ascii ?i1)) = go ''a;foo_bar_baz''"
    and w1: "snd (ComputeGoLocation posix_ascii ?i1) = None"
    by (simp_all add: posix_ascii_def go_def Let_def)
  from ComputeGoLocation_no_separator [OF h2, of posix_ascii]
  have c2: "ComputedPackage (fst (ComputeGoLocation posix_ascii ?i2)) = go ''a;foo_bar_v1''"
    and w2: "snd (ComputeGoLocation posix_ascii ?i2)
             = Some (NoPackageWarning (go ''a/foo-bar.v1.proto''))"
    by (simp_all add: posix_ascii_def go_def Let_def)
  show ?thesis
    using u1 u2 c1 c2 w1 w2 by (simp add: prod_eq_iff)
qed

subsection \<open>CollectPackages\<close>

lemma first_occurrences_snoc:
  "first_occurrences (xs @ [x])
   = (if x \<in> set xs then first_occurrences xs else first_occurrences xs @ [x])"
proof (induction xs)
  case Nil
  show ?case by simp
next
  case (Cons y ys)
  then show ?case by (auto simp: first_occurrences_set)
qed

lemma modify_map_of:
  "map_of (modify k f m) k' = (if k' = k then map_option f (map_of m k) else map_of m k')"
  by (induction m) (auto simp: modify_def)

lemma modify_keys: "map fst (modify k f m) = map fst m"
  by (induction m) (auto simp: modify_def)

lemma map_of_grouped_None: "key \<notin> ComputedPackage ` set fs \<Longrightarrow> map_of (grouped fs) key = None"
  by (simp add: grouped_def map_of_eq_None_iff image_image first_occurrences_set comp_def)

lemma map_of_grouped_Some:
  "key \<in> ComputedPackage ` set fs \<Longrightarrow> \<exists>p. map_of (grouped fs) key = Some p"
proof -
  assume "key \<in> ComputedPackage ` set fs"
  then have "key \<in> fst ` set (grouped fs)"
    by (simp add: grouped_def image_image first_occurrences_set comp_def)
  then show ?thesis
    by (metis map_of_eq_None_iff not_None_eq)
qed

lemma add_file_grouped: "add_file (grouped fs) info = grouped (fs @ [info])"
proof (cases "ComputedPackage info \<in> ComputedPackage ` set fs")
  case True
  then obtain p where "map_of (grouped fs) (ComputedPackage info) = Some p"
    using map_of_grouped_Some by blast
  with True show ?thesis
    by (auto simp: add_file_def grouped_def modify_def first_occurrences_snoc)
next
  case False
  then have n: "map_of (grouped fs) (ComputedPackage info) = None"
    by (rule map_of_grouped_None)
  have "filter (\<lambda>i. ComputedPackage i = ComputedPackage info) fs = []"
    using False by (intro filter_False) (metis imageI)
  with False n show ?thesis
    by (auto simp: add_file_def grouped_def modify_def first_occurrences_snoc
        first_occurrences_set new_PackageInfo_def)
qed

lemma fold_add_file:
  "fold (\<lambda>(k, info) pkgMap. add_file pkgMap info) infos [] = grouped (map snd infos)"
proof (induction infos rule: rev_induct)
  case Nil
  show ?case by (simp add: grouped_def)
next
  case (snoc x xs)
  then show ?case by (cases x) (simp add: add_file_grouped)
qed

lemma store_known:
  "store k (g k) (map (\<lambda>k. (k, g k)) ks) = map (\<lambda>k. (k, g k)) (if k \<in> set ks then ks else ks @ [k])"
  by (auto simp: store_def modify_def image_image)

lemma fold_store:
  "fold (\<lambda>dep deps. store dep (g dep) deps) ds [] = map (\<lambda>k. (k, g k)) (first_occurrences ds)"
proof (induction ds rule: rev_induct)
  case Nil
  show ?case by simp
next
  case (snoc d ds)
  show ?case
    using store_known [of d g "first_occurrences ds"]
    by (simp add: snoc first_occurrences_snoc first_occurrences_set)
qed

lemma fold_fold_concat:
  "fold (\<lambda>info deps. fold f (Deps info) deps) fs acc = fold f (concat (map Deps fs)) acc"
  by (induction fs arbitrary: acc) simp_all

lemma collect_deps_closed:
  "collect_deps infos pkg
   = map (\<lambda>k. (k, map_of infos k)) (first_occurrences (concat (map Deps (Files pkg))))"
  unfolding collect_deps_def fold_fold_concat by (rule fold_store)

lemma CollectPackages_closed:
  "CollectPackages visit infos =
     Inr (map (\<lambda>key. (key,
            \<lparr>PkgComputedPackage = key,
             Files = filter (\<lambda>i. ComputedPackage i = key) (map snd infos),
             PkgDeps = map snd (visit key (map (\<lambda>k. (k, map_of infos k))
                         (first_occurrences (concat (map Deps
                            (filter (\<lambda>i. ComputedPackage i = key) (map snd infos))))))),
             index = 0, lowlink = 0, onStack = False\<rparr>))
       (first_occurrences (map (ComputedPackage \<circ> snd) infos)))"
  by (simp add: CollectPackages_def fold_add_file grouped_def set_deps_def collect_deps_closed
      new_PackageInfo_def comp_def)

lemma permutes_values:
  assumes "permutes visit"
  shows "mset (map snd (visit key (map (\<lambda>k. (k, g k)) ns))) = mset (map g ns)"
proof -
  have "mset (map snd (visit key (map (\<lambda>k. (k, g k)) ns)))
        = image_mset snd (mset (visit key (map (\<lambda>k. (k, g k)) ns)))"
    by simp
  also have "\<dots> = image_mset snd (mset (map (\<lambda>k. (k, g k)) ns))"
    using assms by (simp add: permutes_def)
  also have "\<dots> = mset (map g ns)"
    by (simp add: image_mset.compositionality comp_def)
  finally show ?thesis .
qed

lemma imported_loop_closed:
  "imported_loop seen result ds =
     (if None \<in> set ds then Inl NilDereference
      else Inr (result @ first_occurrences
                  (filter (\<lambda>p. p \<notin> seen) (map (\<lambda>d. ComputedPackage (the d)) ds))))"
proof (induction seen result ds rule: imported_loop.induct)
  case (1 seen result)
  show ?case by simp
next
  case (2 seen result ds)
  show ?case by simp
next
  case (3 seen result d ds)
  let ?pkg = "ComputedPackage d" and ?names = "map (\<lambda>d. ComputedPackage (the d)) ds"
  show ?case
  proof (cases "?pkg \<in> seen")
    case True
    with 3 show ?thesis by simp
  next
    case False
    have "filter (\<lambda>p. p \<notin> insert ?pkg seen) ?names
          = filter (\<lambda>y. y \<noteq> ?pkg) (filter (\<lambda>p. p \<notin> seen) ?names)"
      by (induction ds) auto
    then have "first_occurrences (filter (\<lambda>p. p \<notin> insert ?pkg seen) ?names)
          = filter (\<lambda>y. y \<noteq> ?pkg) (first_occurrences (filter (\<lambda>p. p \<notin> seen) ?names))"
      by (simp only: first_occurrences_filter)
    with False 3 show ?thesis by (simp add: Let_def)
  qed
qed

lemma ImportedPackageComputedNames_Inr:
  assumes "ImportedPackageComputedNames p = Inr names"
  shows "distinct names"
    and "set names = {ComputedPackage d |d. Some d \<in> set (PkgDeps p)} - {PkgComputedPackage p}"
    and "None \<notin> set (PkgDeps p)"
proof -
  from assms have n: "None \<notin> set (PkgDeps p)"
    and e: "names = first_occurrences (filter (\<lambda>q. q \<notin> {PkgComputedPackage p})
                      (map (\<lambda>d. ComputedPackage (the d)) (PkgDeps p)))"
    by (auto simp: ImportedPackageComputedNames_def imported_loop_closed split: if_splits)
  show "distinct names" by (simp add: e first_occurrences_distinct)
  show "None \<notin> set (PkgDeps p)" by (rule n)
  have "(\<lambda>d. ComputedPackage (the d)) ` set (PkgDeps p)
        = {ComputedPackage d |d. Some d \<in> set (PkgDeps p)}"
  proof (intro set_eqI iffI)
    fix x assume "x \<in> (\<lambda>d. ComputedPackage (the d)) ` set (PkgDeps p)"
    then obtain d where "d \<in> set (PkgDeps p)" "x = ComputedPackage (the d)" by blast
    with n show "x \<in> {ComputedPackage d |d. Some d \<in> set (PkgDeps p)}"
      by (cases d) auto
  next
    fix x assume "x \<in> {ComputedPackage d |d. Some d \<in> set (PkgDeps p)}"
    then show "x \<in> (\<lambda>d. ComputedPackage (the d)) ` set (PkgDeps p)" by force
  qed
  then show "set names
      = {ComputedPackage d |d. Some d \<in> set (PkgDeps p)} - {PkgComputedPackage p}"
    by (auto simp: e first_occurrences_set)
qed

lemma CollectPackages_entry:
  assumes "CollectPackages visit infos = Inr pkgMap" "(key, pkg) \<in> set pkgMap"
  shows "PkgComputedPackage pkg = key"
    and "Files pkg = filter (\<lambda>i. ComputedPackage i = key) (map snd infos)"
    and "PkgDeps pkg = map snd (visit key (map (\<lambda>k. (k, map_of infos k))
                         (first_occurrences (concat (map Deps (Files pkg))))))"
    and "index pkg = 0" and "lowlink pkg = 0" and "\<not> onStack pkg"
    and "key \<in> ComputedPackage ` snd ` set infos"
proof -
  from assms have k: "key \<in> set (first_occurrences (map (ComputedPackage \<circ> snd) infos))"
    and p: "pkg = \<lparr>PkgComputedPackage = key,
             Files = filter (\<lambda>i. ComputedPackage i = key) (map snd infos),
             PkgDeps = map snd (visit key (map (\<lambda>k. (k, map_of infos k))
                         (first_occurrences (concat (map Deps
                            (filter (\<lambda>i. ComputedPackage i = key) (map snd infos))))))),
             index = 0, lowlink = 0, onStack = False\<rparr>"
    unfolding CollectPackages_closed by auto
  from k show "key \<in> ComputedPackage ` snd ` set infos"
    by (simp add: first_occurrences_set image_image)
  from p show "PkgComputedPackage pkg = key"
    and "Files pkg = filter (\<lambda>i. ComputedPackage i = key) (map snd infos)"
    and "PkgDeps pkg = map snd (visit key (map (\<lambda>k. (k, map_of infos k))
                         (first_occurrences (concat (map Deps (Files pkg))))))"
    and "index pkg = 0" and "lowlink pkg = 0" and "\<not> onStack pkg"
    by simp_all
qed

lemma CollectPackages_entry_deps:
  assumes "permutes visit" "CollectPackages visit infos = Inr pkgMap" "(key, pkg) \<in> set pkgMap"
  shows "mset (PkgDeps pkg)
       = mset (map (map_of infos) (first_occurrences (concat (map Deps (Files pkg)))))"
    and "set (PkgDeps pkg) = map_of infos ` (\<Union>f \<in> set (Files pkg). set (Deps f))"
proof -
  show m: "mset (PkgDeps pkg)
       = mset (map (map_of infos) (first_occurrences (concat (map Deps (Files pkg)))))"
    unfolding CollectPackages_entry(3) [OF assms(2,3)] using assms(1) by (rule permutes_values)
  have "set (PkgDeps pkg)
       = set (map (map_of infos) (first_occurrences (concat (map Deps (Files pkg)))))"
    using m by (rule mset_eq_setD)
  then show "set (PkgDeps pkg) = map_of infos ` (\<Union>f \<in> set (Files pkg). set (Deps f))"
    by (simp add: first_occurrences_set)
qed

lemma CollectPackages_keys:
  assumes "CollectPackages visit infos = Inr pkgMap"
  shows "distinct (map fst pkgMap)" and "fst ` set pkgMap = ComputedPackage ` snd ` set infos"
proof -
  from assms have "map fst pkgMap = first_occurrences (map (ComputedPackage \<circ> snd) infos)"
    unfolding CollectPackages_closed by (auto simp: comp_def)
  then show "distinct (map fst pkgMap)" and "fst ` set pkgMap = ComputedPackage ` snd ` set infos"
    by (simp_all add: first_occurrences_distinct first_occurrences_set image_image
        flip: set_map)
qed

lemma CollectPackages_total: "\<exists>pkgMap. CollectPackages visit infos = Inr pkgMap"
  by (simp add: CollectPackages_def)

lemma permutes_examples: "permutes (\<lambda>key entries. entries)" "permutes (\<lambda>key. rev)"
  by (simp_all add: permutes_def)

text \<open>
  C3, as stated, fails: CollectPackages puts into Deps every file that a member file
  imports, also one that is itself a member. With \<open>a.proto\<close> and \<open>b.proto\<close> both in
  package \<open>p\<close> and \<open>a.proto\<close> importing \<open>b.proto\<close>, the only bucket has \<open>b.proto\<close> among its
  Files and as the single entry of its Deps (a map of one entry has one order).
\<close>

theorem CollectPackages_own_member_counterexample:
  "CollectPackages (\<lambda>key entries. entries) (fst (ComputeGoLocations posix_ascii
      [(go ''a.proto'', \<lparr>Name = go ''a.proto'', FullPath = [], Package = go ''p'', GoPackage = [],
          Deps = [go ''b.proto''], ComputedPackage = []\<rparr>),
       (go ''b.proto'', \<lparr>Name = go ''b.proto'', FullPath = [], Package = go ''p'', GoPackage = [],
          Deps = [], ComputedPackage = []\<rparr>)]))
   = Inr [(go ''.;p'',
       \<lparr>PkgComputedPackage = go ''.;p'',
        Files = [\<lparr>Name = go ''a.proto'', FullPath = [], Package = go ''p'', GoPackage = [],
                  Deps = [go ''b.proto''], ComputedPackage = go ''.;p''\<rparr>,
                 \<lparr>Name = go ''b.proto'', FullPath = [], Package = go ''p'', GoPackage = [],
                  Deps = [], ComputedPackage = go ''.;p''\<rparr>],
        PkgDeps = [Some \<lparr>Name = go ''b.proto'', FullPath = [], Package = go ''p'', GoPackage = [],
                  Deps = [], ComputedPackage = go ''.;p''\<rparr>],
        index = 0, lowlink = 0, onStack = False\<rparr>)]"
  by (simp add: CollectPackages_def ComputeGoLocations_def ComputeGoLocation_def posix_ascii_def
      go_def LastIndex_def Let_def strings_Map_def badToUnderscore_def add_file_def modify_def
      new_PackageInfo_def set_deps_def collect_deps_def store_def)

text \<open>
  C3 (amended). For every package bucket produced by grouping, whatever the order in which
  \<open>range\<close> visits the map \<open>deps\<close>: Files holds the files whose ComputedPackage is the bucket's
  key, in the order in which the first loop met them, and Deps holds, in some order, what the
  names of the direct dependencies of these files resolve to in \<open>infos\<close>, one entry for each
  distinct name, members of the same bucket included. The bucket's own package is left out
  where the package-level edges are derived: ImportedPackageComputedNames returns, without
  repetition, the ComputedPackages of the Deps other than the bucket's own key.
\<close>

theorem CollectPackages_Deps:
  assumes "permutes visit"
    and "CollectPackages visit infos = Inr pkgMap" and "(key, pkg) \<in> set pkgMap"
  shows "PkgComputedPackage pkg = key
     \<and> Files pkg = filter (\<lambda>i. ComputedPackage i = key) (map snd infos)
     \<and> mset (PkgDeps pkg)
       = mset (map (map_of infos) (first_occurrences (concat (map Deps (Files pkg)))))
     \<and> (\<forall>names. ImportedPackageComputedNames pkg = Inr names \<longrightarrow>
          distinct names \<and>
          set names = {ComputedPackage d |d. Some d \<in> set (PkgDeps pkg)} - {key})"
  using CollectPackages_entry(1,2) [OF assms(2,3)] CollectPackages_entry_deps(1) [OF assms]
    ImportedPackageComputedNames_Inr(1,2) [of pkg]
  by simp

theorem CollectPackages_Deps_witness:
  "permutes (\<lambda>key. rev)
   \<and> (\<exists>pkgMap pkg names.
        CollectPackages (\<lambda>key. rev)
          [(go ''a.proto'', \<lparr>Name = go ''a.proto'', FullPath = [], Package = go ''p'',
              GoPackage = [], Deps = [go ''b.proto'', go ''c.proto''],
              ComputedPackage = go ''.;p''\<rparr>),
           (go ''b.proto'', \<lparr>Name = go ''b.proto'', FullPath = [], Package = go ''p'',
              GoPackage = [], Deps = [go ''c.proto''], ComputedPackage = go ''.;p''\<rparr>),
           (go ''c.proto'', \<lparr>Name = go ''c.proto'', FullPath = [], Package = go ''q'',
              GoPackage = [], Deps = [], ComputedPackage = go ''.;q''\<rparr>)] = Inr pkgMap
        \<and> (go ''.;p'', pkg) \<in> set pkgMap
        \<and> mset (PkgDeps pkg)
          = {#Some \<lparr>Name = go ''b.proto'', FullPath = [], Package = go ''p'',
                    GoPackage = [], Deps = [go ''c.proto''], ComputedPackage = go ''.;p''\<rparr>,
              Some \<lparr>Name = go ''c.proto'', FullPath = [], Package = go ''q'',
                    GoPackage = [], Deps = [], ComputedPackage = go ''.;q''\<rparr>#}
        \<and> ImportedPackageComputedNames pkg = Inr names
        \<and> set names = {go ''.;q''})"
  (is "_ \<and> (\<exists>pkgMap pkg names. CollectPackages _ ?infos = Inr pkgMap \<and> _)")
proof -
  let ?b = "\<lparr>Name = go ''b.proto'', FullPath = [], Package = go ''p'',
                    GoPackage = [], Deps = [go ''c.proto''], ComputedPackage = go ''.;p''\<rparr>"
  let ?c = "\<lparr>Name = go ''c.proto'', FullPath = [], Package = go ''q'',
                    GoPackage = [], Deps = [], ComputedPackage = go ''.;q''\<rparr>"
  have p: "permutes (\<lambda>key. rev)" by (rule permutes_examples)
  obtain pkgMap where c: "CollectPackages (\<lambda>key. rev) ?infos = Inr pkgMap"
    using CollectPackages_total by blast
  then obtain pkg where m: "(go ''.;p'', pkg) \<in> set pkgMap"
    by (auto simp: CollectPackages_closed go_def)
  from CollectPackages_Deps [OF p c m]
  have d: "mset (PkgDeps pkg) = {#Some ?b, Some ?c#}"
    and i: "\<forall>names. ImportedPackageComputedNames pkg = Inr names \<longrightarrow>
          set names = {ComputedPackage d |d. Some d \<in> set (PkgDeps pkg)} - {go ''.;p''}"
    by (simp_all add: go_def)
  from d have s: "set (PkgDeps pkg) = {Some ?b, Some ?c}"
    by (metis mset_eq_setD set_mset_add_mset_insert set_mset_empty set_mset_mset)
  then have "None \<notin> set (PkgDeps pkg)" by simp
  then obtain names where n: "ImportedPackageComputedNames pkg = Inr names"
    by (simp add: ImportedPackageComputedNames_def imported_loop_closed)
  from s have "{ComputedPackage d |d. Some d \<in> set (PkgDeps pkg)} = ComputedPackage ` {?b, ?c}"
    by (simp only: insert_iff empty_iff option.inject) blast
  with i n have "set names = ComputedPackage ` {?b, ?c} - {go ''.;p''}"
    by simp
  then have "set names = {go ''.;q''}"
    by (simp add: go_def)
  with p c m d n show ?thesis by blast
qed

lemma buckets_closed:
  assumes "permutes visit" "CollectPackages visit infos = Inr pkgMap"
  shows "buckets pkgMap =
     (\<lambda>key. (key, {i \<in> snd ` set infos. ComputedPackage i = key},
              map_of infos ` (\<Union>i \<in> {i \<in> snd ` set infos. ComputedPackage i = key}. set (Deps i))))
     ` ComputedPackage ` snd ` set infos"
proof -
  have e: "(k, set (Files p), set (PkgDeps p))
      = (k, {i \<in> snd ` set infos. ComputedPackage i = k},
         map_of infos ` (\<Union>i \<in> {i \<in> snd ` set infos. ComputedPackage i = k}. set (Deps i)))"
    if "(k, p) \<in> set pkgMap" for k p
  proof -
    have f: "set (Files p) = {i \<in> snd ` set infos. ComputedPackage i = k}"
      unfolding CollectPackages_entry(2) [OF assms(2) that] by auto
    show ?thesis
      unfolding CollectPackages_entry_deps(2) [OF assms that] f by simp
  qed
  have "buckets pkgMap
      = (\<lambda>(k, p). (k, {i \<in> snd ` set infos. ComputedPackage i = k},
         map_of infos ` (\<Union>i \<in> {i \<in> snd ` set infos. ComputedPackage i = k}. set (Deps i))))
        ` set pkgMap"
    unfolding buckets_def
  proof (rule image_cong [OF refl])
    fix kp assume kp: "kp \<in> set pkgMap"
    obtain k p where "kp = (k, p)" by (cases kp)
    with kp e [of k p] show "(case kp of (k, p) \<Rightarrow> (k, set (Files p), set (PkgDeps p)))
        = (case kp of (k, p) \<Rightarrow> (k, {i \<in> snd ` set infos. ComputedPackage i = k},
         map_of infos ` (\<Union>i \<in> {i \<in> snd ` set infos. ComputedPackage i = k}. set (Deps i))))"
      by (simp only: prod.case)
  qed
  also have "\<dots> = (\<lambda>key. (key, {i \<in> snd ` set infos. ComputedPackage i = key},
              map_of infos ` (\<Union>i \<in> {i \<in> snd ` set infos. ComputedPackage i = key}. set (Deps i))))
     ` fst ` set pkgMap"
    by (simp add: image_image case_prod_unfold)
  finally show ?thesis
    unfolding CollectPackages_keys(2) [OF assms(2)] .
qed

lemma ComputeGoLocations_entries:
  "fst (ComputeGoLocations lib infos) = map (\<lambda>(k, info). (k, fst (ComputeGoLocation lib info))) infos"
  "map fst (fst (ComputeGoLocations lib infos)) = map fst infos"
  by (simp_all add: ComputeGoLocations_def case_prod_unfold comp_def)

lemma CollectPackages_permuted:
  assumes "set xs = set ys" "distinct (map fst xs)" "distinct (map fst ys)"
    and "permutes visit" "permutes visit'"
    and "CollectPackages visit xs = Inr m" "CollectPackages visit' ys = Inr m'"
  shows "buckets m = buckets m'"
proof -
  from assms(1-3) have "map_of xs = map_of ys"
    by (simp add: map_of_inject_set)
  with assms(1) show ?thesis
    unfolding buckets_closed [OF assms(4,6)] buckets_closed [OF assms(5,7)] by simp
qed

lemma ComputeGoLocation_fields:
  assumes "Name i = Name j" "Package i = Package j" "GoPackage i = GoPackage j"
  shows "ComputedPackage (fst (ComputeGoLocation lib i))
       = ComputedPackage (fst (ComputeGoLocation lib j))"
  using assms by (simp add: ComputeGoLocation_def Let_def)

text \<open>
  C8. The ComputedPackage of a file is a function of its Name, Package and GoPackage alone.
  For two orders of the same entries of \<open>infos\<close> (the same set of entries, keys distinct),
  and whatever the orders in which \<open>range\<close> visits the maps \<open>deps\<close> in the two runs,
  ComputeGoLocations gives every file the same ComputedPackage, and CollectPackages gives
  the same buckets: the same keys, each with the same set of member files and the same set
  of dependencies.
\<close>

theorem computedPackage_order_independent:
  assumes "set infos' = set infos" and "distinct (map fst infos)" and "distinct (map fst infos')"
    and "permutes visit" and "permutes visit'"
  shows "map_of (fst (ComputeGoLocations lib infos')) = map_of (fst (ComputeGoLocations lib infos))
     \<and> (\<exists>m m'. CollectPackages visit (fst (ComputeGoLocations lib infos)) = Inr m
            \<and> CollectPackages visit' (fst (ComputeGoLocations lib infos')) = Inr m'
            \<and> buckets m' = buckets m)
     \<and> (\<forall>i j. Name i = Name j \<and> Package i = Package j \<and> GoPackage i = GoPackage j \<longrightarrow>
            ComputedPackage (fst (ComputeGoLocation lib i))
            = ComputedPackage (fst (ComputeGoLocation lib j)))"
proof -
  let ?xs = "fst (ComputeGoLocations lib infos)" and ?ys = "fst (ComputeGoLocations lib infos')"
  have s: "set ?ys = set ?xs"
    using assms(1) by (simp add: ComputeGoLocations_entries(1))
  have d: "distinct (map fst ?xs)" "distinct (map fst ?ys)"
    using assms(2,3) by (simp_all add: ComputeGoLocations_entries(2))
  have 1: "map_of ?ys = map_of ?xs"
    using s d by (simp add: map_of_inject_set)
  obtain m m' where m: "CollectPackages visit ?xs = Inr m" "CollectPackages visit' ?ys = Inr m'"
    by (simp add: CollectPackages_def)
  have 2: "buckets m' = buckets m"
    using CollectPackages_permuted [OF s d(2,1) assms(5,4) m(2,1)] .
  show ?thesis
    using 1 2 m ComputeGoLocation_fields [of _ _ lib] by blast
qed

theorem computedPackage_order_independent_witness:
  "map_of (fst (ComputeGoLocations posix_ascii
      [(go ''y.proto'', \<lparr>Name = go ''y.proto'', FullPath = [], Package = go ''y'', GoPackage = [],
          Deps = [], ComputedPackage = []\<rparr>),
       (go ''x.proto'', \<lparr>Name = go ''x.proto'', FullPath = [], Package = go ''x'', GoPackage = [],
          Deps = [go ''y.proto''], ComputedPackage = []\<rparr>)]))
   = map_of (fst (ComputeGoLocations posix_ascii
      [(go ''x.proto'', \<lparr>Name = go ''x.proto'', FullPath = [], Package = go ''x'', GoPackage = [],
          Deps = [go ''y.proto''], ComputedPackage = []\<rparr>),
       (go ''y.proto'', \<lparr>Name = go ''y.proto'', FullPath = [], Package = go ''y'', GoPackage = [],
          Deps = [], ComputedPackage = []\<rparr>)]))
   \<and> (\<exists>m m'. CollectPackages (\<lambda>key entries. entries) (fst (ComputeGoLocations posix_ascii
      [(go ''x.proto'', \<lparr>Name = go ''x.proto'', FullPath = [], Package = go ''x'', GoPackage = [],
          Deps = [go ''y.proto''], ComputedPackage = []\<rparr>),
       (go ''y.proto'', \<lparr>Name = go ''y.proto'', FullPath = [], Package = go ''y'', GoPackage = [],
          Deps = [], ComputedPackage = []\<rparr>)])) = Inr m
     \<and> CollectPackages (\<lambda>key. rev) (fst (ComputeGoLocations posix_ascii
      [(go ''y.proto'', \<lparr>Name = go ''y.proto'', FullPath = [], Package = go ''y'', GoPackage = [],
          Deps = [], ComputedPackage = []\<rparr>),
       (go ''x.proto'', \<lparr>Name = go ''x.proto'', FullPath = [], Package = go ''x'', GoPackage = [],
          Deps = [go ''y.proto''], ComputedPackage = []\<rparr>)])) = Inr m'
     \<and> buckets m' = buckets m)"
  (is "map_of (fst (ComputeGoLocations _ ?infos')) = map_of (fst (ComputeGoLocations _ ?infos)) \<and> _")
proof -
  have h: "set ?infos' = set ?infos" "distinct (map fst ?infos)" "distinct (map fst ?infos')"
    by (auto simp: go_def)
  from computedPackage_order_independent [OF h permutes_examples, of posix_ascii]
  show ?thesis by blast
qed

subsection \<open>Generate\<close>

lemma step_path:
  "s' \<in> set (next_states generate s) \<Longrightarrow> (step generate)\<^sup>*\<^sup>* s' t \<Longrightarrow> (step generate)\<^sup>*\<^sup>* s t"
  by (simp add: step_def converse_rtranclp_into_rtranclp)

lemma invariant_reachable:
  assumes "(step generate)\<^sup>*\<^sup>* s0 s" and "I s0" and "\<And>s s'. I s \<Longrightarrow> step generate s s' \<Longrightarrow> I s'"
  shows "I s"
  using assms by (induction rule: rtranclp_induct) auto

lemma single_inv_step:
  assumes "single_inv s" "step generate s s'"
  shows "single_inv s'"
proof -
  from assms(1) obtain w where w: "workers s = [w]"
    by (cases "workers s") (auto simp: single_inv_def)
  from assms(2) consider "s' \<in> set (submitter_steps s)" | "s' \<in> set (worker_steps generate s 0)"
    by (auto simp: step_def next_states_def w)
  then show ?thesis
  proof cases
    case 1
    with assms(1) w show ?thesis
      by (auto simp: single_inv_def submitter_steps_def
          split: submitter.splits list.splits if_splits)
  next
    case 2
    with assms(1) w show ?thesis
      by (auto simp: single_inv_def worker_steps_def pkgChan_closed_def
          split: submitter.splits list.splits if_splits worker.splits option.splits)
  qed
qed

text \<open>
  C1. With one needed package, Parallelism 1 and a generator that fails, every execution of
  Generate returns nil: the package is submitted before any error exists, the loop ends,
  and the error that the worker then puts into \<open>errChan\<close> is never read. The claim asks
  for an error whenever the generation of some package fails.
\<close>

theorem Generate_drops_last_error:
  "Generate_returns
     \<lparr>Parallelism = 1, packages = [go ''.;p''], allPackages = [], initCalled = True\<rparr>
     (\<lambda>pkg. Some ''exit status 1'') = {None}"
  (is "Generate_returns ?w ?g = _")
proof -
  let ?k = "go ''.;p''"
  let ?e = "ErrorGeneratingPackage ?k ''exit status 1''"
  let ?s0 = "\<lparr>submitter = Submit [?k], err = None, workers = [Receiving], errChan = [],
              capacity = 1\<rparr>"
  have start: "Generate_start ?w = Inr ?s0"
    by (simp add: Generate_start_def packagesInOrder_def)
  have "err s = None" if "(step ?g)\<^sup>*\<^sup>* ?s0 s" for s
  proof -
    have "single_inv s"
      using that
    proof (rule invariant_reachable)
      show "single_inv ?s0" by (simp add: single_inv_def)
    qed (rule single_inv_step)
    then show ?thesis by (simp add: single_inv_def)
  qed
  moreover have "(step ?g)\<^sup>*\<^sup>* ?s0
      \<lparr>submitter = Return, err = None, workers = [Exited], errChan = [?e], capacity = 1\<rparr>"
    apply (rule step_path [where s' = "\<lparr>submitter = Submit [], err = None,
        workers = [Generating ?k], errChan = [], capacity = 1\<rparr>"])
     apply (simp add: next_states_def submitter_steps_def)
    apply (rule step_path [where s' = "\<lparr>submitter = Submit [], err = None,
        workers = [Sending ?e], errChan = [], capacity = 1\<rparr>"])
     apply (simp add: next_states_def submitter_steps_def worker_steps_def)
    apply (rule step_path [where s' = "\<lparr>submitter = Submit [], err = None,
        workers = [Receiving], errChan = [?e], capacity = 1\<rparr>"])
     apply (simp add: next_states_def submitter_steps_def worker_steps_def)
    apply (rule step_path [where s' = "\<lparr>submitter = Close, err = None,
        workers = [Receiving], errChan = [?e], capacity = 1\<rparr>"])
     apply (simp add: next_states_def submitter_steps_def worker_steps_def)
    apply (rule step_path [where s' = "\<lparr>submitter = Wait, err = None,
        workers = [Receiving], errChan = [?e], capacity = 1\<rparr>"])
     apply (simp add: next_states_def submitter_steps_def worker_steps_def)
    apply (rule step_path [where s' = "\<lparr>submitter = Wait, err = None,
        workers = [Exited], errChan = [?e], capacity = 1\<rparr>"])
     apply (simp add: next_states_def submitter_steps_def worker_steps_def pkgChan_closed_def)
    apply (rule step_path [where s' = "\<lparr>submitter = Return, err = None,
        workers = [Exited], errChan = [?e], capacity = 1\<rparr>"])
     apply (simp add: next_states_def submitter_steps_def worker_steps_def pkgChan_closed_def)
    apply (rule rtranclp.rtrancl_refl)
    done
  ultimately show ?thesis
    unfolding Generate_returns_def start by (auto intro!: exI)
qed

text \<open>
  C2. With two needed packages, Parallelism 1 and a generator that fails, the worker can
  put its first error into \<open>errChan\<close> (capacity 1) and receive the second package from the
  \<open>select\<close>; its second error then finds the buffer full, the submitting goroutine is at
  \<open>wg.Wait\<close> and reads nothing any more: the worker is stuck on its send and Generate
  does not return. The claim says that no send ever blocks and that Generate always returns.
\<close>

theorem Generate_worker_stuck:
  "\<lparr>submitter = Wait, err = None,
    workers = [Sending (ErrorGeneratingPackage (go ''.;q'') ''exit status 1'')],
    errChan = [ErrorGeneratingPackage (go ''.;p'') ''exit status 1''], capacity = 1\<rparr>
   \<in> Generate_deadlocks
     \<lparr>Parallelism = 1, packages = [go ''.;q'', go ''.;p''], allPackages = [], initCalled = True\<rparr>
     (\<lambda>pkg. Some ''exit status 1'')"
  (is "?dead \<in> Generate_deadlocks ?w ?g")
proof -
  let ?p = "go ''.;p''" and ?q = "go ''.;q''"
  let ?ep = "ErrorGeneratingPackage ?p ''exit status 1''"
  let ?eq = "ErrorGeneratingPackage ?q ''exit status 1''"
  let ?s0 = "\<lparr>submitter = Submit [?p, ?q], err = None, workers = [Receiving], errChan = [],
              capacity = 1\<rparr>"
  have start: "Generate_start ?w = Inr ?s0"
    by (simp add: Generate_start_def packagesInOrder_def go_def)
  have "(step ?g)\<^sup>*\<^sup>* ?s0 ?dead"
    apply (rule step_path [where s' = "\<lparr>submitter = Submit [?q], err = None,
        workers = [Generating ?p], errChan = [], capacity = 1\<rparr>"])
     apply (simp add: next_states_def submitter_steps_def)
    apply (rule step_path [where s' = "\<lparr>submitter = Submit [?q], err = None,
        workers = [Sending ?ep], errChan = [], capacity = 1\<rparr>"])
     apply (simp add: next_states_def submitter_steps_def worker_steps_def)
    apply (rule step_path [where s' = "\<lparr>submitter = Submit [?q], err = None,
        workers = [Receiving], errChan = [?ep], capacity = 1\<rparr>"])
     apply (simp add: next_states_def submitter_steps_def worker_steps_def)
    apply (rule step_path [where s' = "\<lparr>submitter = Submit [], err = None,
        workers = [Generating ?q], errChan = [?ep], capacity = 1\<rparr>"])
     apply (simp add: next_states_def submitter_steps_def worker_steps_def)
    apply (rule step_path [where s' = "\<lparr>submitter = Submit [], err = None,
        workers = [Sending ?eq], errChan = [?ep], capacity = 1\<rparr>"])
     apply (simp add: next_states_def submitter_steps_def worker_steps_def)
    apply (rule step_path [where s' = "\<lparr>submitter = Close, err = None,
        workers = [Sending ?eq], errChan = [?ep], capacity = 1\<rparr>"])
     apply (simp add: next_states_def submitter_steps_def worker_steps_def)
    apply (rule step_path [where s' = "\<lparr>submitter = Wait, err = None,
        workers = [Sending ?eq], errChan = [?ep], capacity = 1\<rparr>"])
     apply (simp add: next_states_def submitter_steps_def worker_steps_def)
    apply (rule rtranclp.rtrancl_refl)
    done
  moreover have "next_states ?g ?dead = []"
    by (simp add: next_states_def submitter_steps_def worker_steps_def)
  ultimately show ?thesis
    unfolding Generate_deadlocks_def start by simp
qed

subsection \<open>tarjan: termination and panics\<close>

lemma map_of_modify:
  "map_of (modify k f m) k' = (if k' = k then map_option f (map_of m k) else map_of m k')"
  by (induction m) (auto simp: modify_def)

lemma fst_set_modify: "fst ` set (modify k f m) = fst ` set m"
  by (force simp: modify_def)

lemma length_modify: "length (modify k f m) = length m"
  by (simp add: modify_def)

lemma ImportedPackageComputedNames_cong:
  "PkgComputedPackage p = PkgComputedPackage q \<Longrightarrow> PkgDeps p = PkgDeps q \<Longrightarrow>
   ImportedPackageComputedNames p = ImportedPackageComputedNames q"
  by (simp add: ImportedPackageComputedNames_def)

lemma imports_of_modify:
  assumes "\<And>p. PkgComputedPackage (f p) = PkgComputedPackage p" "\<And>p. PkgDeps (f p) = PkgDeps p"
  shows "imports_of (modify k f m) x = imports_of m x"
  using assms
  by (auto simp: imports_of_def map_of_modify ImportedPackageComputedNames_def split: option.splits)

lemma in_keys_iff: "v \<in> keys_of st \<longleftrightarrow> map_of (pkgs st) v \<noteq> None"
  by (simp add: keys_of_def map_of_eq_None_iff)

text \<open>The effect of set_lowlink, enter and the pop loop on the fields.\<close>

lemma set_lowlink_simps [simp]:
  "next_index (set_lowlink v l st) = next_index st"
  "sccs (set_lowlink v l st) = sccs st"
  "stack (set_lowlink v l st) = stack st"
  "keys_of (set_lowlink v l st) = keys_of st"
  "imports_of (pkgs (set_lowlink v l st)) x = imports_of (pkgs st) x"
  "index_of (set_lowlink v l st) x = index_of st x"
  "onStack_of (set_lowlink v l st) x = onStack_of st x"
  "length (pkgs (set_lowlink v l st)) = length (pkgs st)"
  by (auto simp: set_lowlink_def keys_of_def fst_set_modify imports_of_modify index_of_def
      onStack_of_def map_of_modify length_modify split: option.splits)

lemma lowlink_of_set_lowlink:
  "v \<in> keys_of st \<Longrightarrow> lowlink_of (set_lowlink v l st) x = (if x = v then l else lowlink_of st x)"
  by (auto simp: set_lowlink_def lowlink_of_def map_of_modify in_keys_iff split: option.splits)

lemma enter_simps [simp]:
  "next_index (enter v st) = Suc (next_index st)"
  "sccs (enter v st) = sccs st"
  "stack (enter v st) = stack st @ [v]"
  "keys_of (enter v st) = keys_of st"
  "imports_of (pkgs (enter v st)) x = imports_of (pkgs st) x"
  "length (pkgs (enter v st)) = length (pkgs st)"
  by (auto simp: enter_def keys_of_def fst_set_modify imports_of_modify length_modify)

lemma enter_fields:
  assumes "v \<in> keys_of st"
  shows "index_of (enter v st) x = (if x = v then next_index st else index_of st x)"
    and "lowlink_of (enter v st) x = (if x = v then next_index st else lowlink_of st x)"
    and "onStack_of (enter v st) x = (if x = v then True else onStack_of st x)"
  using assms
  by (auto simp: enter_def index_of_def lowlink_of_def onStack_of_def map_of_modify in_keys_iff
      split: option.splits)

lemma pop_loop_closed:
  assumes "v \<notin> set hi"
  shows "pop_loop v scc (hi @ v # lo) pk
     = Inr (scc @ hi @ [v], lo,
            fold (\<lambda>w. modify w (\<lambda>p. p\<lparr>onStack := False\<rparr>)) (hi @ [v]) pk)"
  using assms by (induction hi arbitrary: scc pk) (auto simp: Let_def)

lemma pop_loop_missing: "v \<notin> set xs \<Longrightarrow> pop_loop v scc xs pk = Inl IndexOutOfRange"
  by (induction xs arbitrary: scc pk) (auto simp: Let_def)

lemma clear_onStack_facts:
  "fst ` set (clear_onStack ws pk) = fst ` set pk"
  "length (clear_onStack ws pk) = length pk"
  "imports_of (clear_onStack ws pk) x = imports_of pk x"
  "map_option index (map_of (clear_onStack ws pk) x) = map_option index (map_of pk x)"
  "map_option lowlink (map_of (clear_onStack ws pk) x) = map_option lowlink (map_of pk x)"
  "map_option onStack (map_of (clear_onStack ws pk) x)
     = map_option (\<lambda>p. onStack p \<and> x \<notin> set ws) (map_of pk x)"
  unfolding clear_onStack_def
  by (induction ws arbitrary: pk)
     (auto simp: fst_set_modify length_modify imports_of_modify map_of_modify option.map_comp
       comp_def split: option.splits intro!: option.map_cong)

lemma pop_scc_closed:
  assumes "stack st = lo @ v # hi" "v \<notin> set hi"
  shows "pop_scc v st = Inr (st\<lparr>stack := lo, pkgs := clear_onStack (rev hi @ [v]) (pkgs st),
                               sccs := sccs st @ [rev hi @ [v]]\<rparr>)"
proof -
  have "rev (stack st) = rev hi @ v # rev lo" using assms(1) by simp
  moreover have "v \<notin> set (rev hi)" using assms(2) by simp
  ultimately show ?thesis
    by (simp add: pop_scc_def pop_loop_closed clear_onStack_def)
qed

lemma pop_scc_Inr:
  assumes "pop_scc v st = Inr st'"
  shows "\<exists>lo hi. stack st = lo @ v # hi \<and> v \<notin> set hi \<and>
           st' = st\<lparr>stack := lo, pkgs := clear_onStack (rev hi @ [v]) (pkgs st),
                    sccs := sccs st @ [rev hi @ [v]]\<rparr>"
proof (cases "v \<in> set (stack st)")
  case False
  then have "pop_loop v [] (rev (stack st)) (pkgs st) = Inl IndexOutOfRange"
    by (intro pop_loop_missing) simp
  with assms show ?thesis by (simp add: pop_scc_def)
next
  case True
  then obtain lo hi where "stack st = lo @ v # hi" "v \<notin> set hi"
    using split_list_last by fastforce
  with pop_scc_closed [OF this] assms show ?thesis by auto
qed

lemma pop_scc_fields:
  assumes "pop_scc v st = Inr st'"
  shows "keys_of st' = keys_of st" "length (pkgs st') = length (pkgs st)"
    "imports_of (pkgs st') x = imports_of (pkgs st) x"
    "index_of st' x = index_of st x" "lowlink_of st' x = lowlink_of st x"
    "next_index st' = next_index st"
proof -
  from pop_scc_Inr [OF assms] obtain lo hi where
    st': "st' = st\<lparr>stack := lo, pkgs := clear_onStack (rev hi @ [v]) (pkgs st),
                    sccs := sccs st @ [rev hi @ [v]]\<rparr>" by blast
  show "keys_of st' = keys_of st" "length (pkgs st') = length (pkgs st)"
    "imports_of (pkgs st') x = imports_of (pkgs st) x" "next_index st' = next_index st"
    by (simp_all add: st' keys_of_def clear_onStack_facts)
  show "index_of st' x = index_of st x"
    using clear_onStack_facts(4) [of "rev hi @ [v]" "pkgs st" x]
    by (auto simp: st' index_of_def split: option.splits)
  show "lowlink_of st' x = lowlink_of st x"
    using clear_onStack_facts(5) [of "rev hi @ [v]" "pkgs st" x]
    by (auto simp: st' lowlink_of_def split: option.splits)
qed

lemma mono_refl: "mono st st"
  by (auto simp: mono_def)

lemma mono_trans: "mono st st1 \<Longrightarrow> mono st1 st2 \<Longrightarrow> mono st st2"
  unfolding mono_def by (metis (no_types, lifting) order_trans)

lemma finite_keys: "finite (keys_of st)"
  by (simp add: keys_of_def)

lemma mono_unvisited: "mono st st' \<Longrightarrow> card (unvisited st') \<le> card (unvisited st)"
proof -
  assume "mono st st'"
  then have "unvisited st' \<subseteq> unvisited st"
    unfolding mono_def unvisited_def by force
  moreover have "finite (unvisited st)" by (simp add: unvisited_def finite_keys)
  ultimately show ?thesis by (rule card_mono [rotated])
qed

lemma mono_set_lowlink: "mono st (set_lowlink v l st)"
  by (auto simp: mono_def)

lemma mono_enter:
  assumes "v \<in> keys_of st" "index_of st v = 0" "imports_of (pkgs st) v = Inr names"
  shows "mono st (enter v st)"
  using assms by (auto simp: mono_def enter_fields)

lemma mono_pop: "pop_scc v st = Inr st' \<Longrightarrow> mono st st'"
  by (auto simp: mono_def pop_scc_fields)

lemma unvisited_enter:
  assumes "v \<in> keys_of st" "index_of st v = 0" "0 < next_index st" "card (unvisited st) \<le> Suc n"
  shows "card (unvisited (enter v st)) \<le> n"
proof -
  have "unvisited (enter v st) = unvisited st - {v}"
    using assms(1,3) by (auto simp: unvisited_def enter_fields)
  moreover have "v \<in> unvisited st" using assms(1,2) by (simp add: unvisited_def)
  moreover have "finite (unvisited st)" by (simp add: unvisited_def finite_keys)
  ultimately show ?thesis using assms(4) by simp
qed

lemma index_of_map_of: "map_of (pkgs st) w = Some p \<Longrightarrow> index_of st w = index p"
  "map_of (pkgs st) w = Some p \<Longrightarrow> onStack_of st w = onStack p"
  "map_of (pkgs st) w = Some p \<Longrightarrow> w \<in> keys_of st"
  by (simp_all add: index_of_def onStack_of_def in_keys_iff)

lemma basic:
  "0 < next_index st \<Longrightarrow> v \<in> keys_of st \<Longrightarrow> index_of st v = 0 \<Longrightarrow> card (unvisited st) \<le> n \<Longrightarrow>
     strongConnect n v st \<noteq> None \<and>
     (\<forall>st'. strongConnect n v st = Some (Inr st') \<longrightarrow> mono st st' \<and> index_of st' v \<noteq> 0)"
  "0 < next_index st \<Longrightarrow> card (unvisited st) \<le> n \<Longrightarrow>
     visit_successors n v ws st \<noteq> None \<and>
     (\<forall>st'. visit_successors n v ws st = Some (Inr st') \<longrightarrow>
        mono st st' \<and> (\<forall>w \<in> set ws. index_of st' w \<noteq> 0))"
proof (induction n v st and n v ws st rule: strongConnect_visit_successors.induct)
  case (1 v st)
  then have "v \<in> unvisited st" by (simp add: unvisited_def)
  moreover have "finite (unvisited st)" by (simp add: unvisited_def finite_keys)
  ultimately have "card (unvisited st) \<noteq> 0" by auto
  with 1 show ?case by simp
next
  case (2 n v st)
  let ?st1 = "enter v st"
  show ?case
  proof (cases "imports_of (pkgs st) v")
    case (Inl e)
    then show ?thesis by (simp add: Let_def)
  next
    case (Inr names)
    have m1: "mono st ?st1" using "2.prems"(2,3) Inr by (rule mono_enter)
    have c1: "card (unvisited ?st1) \<le> n" using "2.prems"(2,3,1,4) by (rule unvisited_enter)
    have i1: "index_of ?st1 v \<noteq> 0" using "2.prems"(1,2) by (simp add: enter_fields)
    from "2.IH" [OF refl, of names] Inr c1
    have IH: "visit_successors n v names ?st1 \<noteq> None"
      "\<And>st'. visit_successors n v names ?st1 = Some (Inr st') \<Longrightarrow> mono ?st1 st'"
      by simp_all
    then obtain r where r: "visit_successors n v names ?st1 = Some r" by blast
    show ?thesis
    proof (cases r)
      case (Inl e)
      with r Inr show ?thesis by (simp add: Let_def)
    next
      case st2: (Inr st2)
      with r IH(2) have m2: "mono ?st1 st2" by simp
      from m1 m2 have m: "mono st st2" by (rule mono_trans)
      from m2 i1 have i2: "index_of st2 v \<noteq> 0" by (simp add: mono_def)
      show ?thesis
      proof (cases "lowlink_of st2 v = index_of st2 v")
        case False
        with r st2 Inr m i2 show ?thesis by (simp add: Let_def)
      next
        case True
        have "mono st st' \<and> index_of st' v \<noteq> 0" if "pop_scc v st2 = Inr st'" for st'
          using mono_trans [OF m mono_pop [OF that]] i2 pop_scc_fields(4) [OF that] by simp
        with True r st2 Inr show ?thesis by (simp add: Let_def)
      qed
    qed
  qed
next
  case (3 n v st)
  show ?case by (simp add: mono_refl)
next
  case (4 n v wName rest st)
  show ?case
  proof (cases "map_of (pkgs st) wName")
    case None
    then show ?thesis by simp
  next
    case (Some w)
    note w = index_of_map_of [OF Some]
    show ?thesis
    proof (cases "index w = 0")
      case True
      from "4.IH"(1) [OF Some True "4.prems"(1) w(3) _ "4.prems"(2)] True w(1)
      have IH1: "strongConnect n wName st \<noteq> None"
        "\<And>st'. strongConnect n wName st = Some (Inr st') \<Longrightarrow> mono st st' \<and> index_of st' wName \<noteq> 0"
        by simp_all
      then obtain r where r: "strongConnect n wName st = Some r" by blast
      show ?thesis
      proof (cases r)
        case (Inl e)
        with r Some True show ?thesis by simp
      next
        case st1: (Inr st1)
        let ?st1' = "if lowlink_of st1 wName < lowlink_of st1 v
               then set_lowlink v (lowlink_of st1 wName) st1 else st1"
        from IH1(2) r st1 have m1: "mono st st1" and i1: "index_of st1 wName \<noteq> 0" by simp_all
        have m1': "mono st1 ?st1'" by (simp add: mono_set_lowlink mono_refl)
        have m: "mono st ?st1'" using m1 m1' by (rule mono_trans)
        have n1: "0 < next_index ?st1'" using m "4.prems"(1) by (simp add: mono_def)
        have c1: "card (unvisited ?st1') \<le> n"
          using mono_unvisited [OF m] "4.prems"(2) by simp
        from "4.IH"(2) [OF Some True r st1 n1 c1]
        have IH2: "visit_successors n v rest ?st1' \<noteq> None"
          "\<And>st'. visit_successors n v rest ?st1' = Some (Inr st') \<Longrightarrow>
             mono ?st1' st' \<and> (\<forall>w \<in> set rest. index_of st' w \<noteq> 0)"
          by simp_all
        have "mono st st' \<and> (\<forall>w \<in> set (wName # rest). index_of st' w \<noteq> 0)"
          if "visit_successors n v rest ?st1' = Some (Inr st')" for st'
        proof -
          from IH2(2) [OF that] have a: "mono ?st1' st'" "\<forall>w \<in> set rest. index_of st' w \<noteq> 0"
            by simp_all
          have "index_of ?st1' wName \<noteq> 0" using i1 by simp
          with a(1) have "index_of st' wName \<noteq> 0" by (simp add: mono_def)
          with a mono_trans [OF m a(1)] show ?thesis by simp
        qed
        with IH2(1) r st1 Some True show ?thesis by simp
      qed
    next
      case False
      let ?st1' = "if onStack w \<and> index w < lowlink_of st v then set_lowlink v (index w) st else st"
      have m: "mono st ?st1'" by (simp add: mono_set_lowlink mono_refl)
      have n1: "0 < next_index ?st1'" using "4.prems"(1) by simp
      have c1: "card (unvisited ?st1') \<le> n"
        using mono_unvisited [OF m] "4.prems"(2) by simp
      from "4.IH"(3) [OF Some False n1 c1]
      have IH3: "visit_successors n v rest ?st1' \<noteq> None"
        "\<And>st'. visit_successors n v rest ?st1' = Some (Inr st') \<Longrightarrow>
           mono ?st1' st' \<and> (\<forall>w \<in> set rest. index_of st' w \<noteq> 0)"
        by simp_all
      have "mono st st' \<and> (\<forall>w \<in> set (wName # rest). index_of st' w \<noteq> 0)"
        if "visit_successors n v rest ?st1' = Some (Inr st')" for st'
      proof -
        from IH3(2) [OF that] have a: "mono ?st1' st'" "\<forall>w \<in> set rest. index_of st' w \<noteq> 0"
          by simp_all
        have "index_of ?st1' wName \<noteq> 0" using False w(1) by simp
        with a(1) have "index_of st' wName \<noteq> 0" by (simp add: mono_def)
        with a mono_trans [OF m a(1)] show ?thesis by simp
      qed
      with IH3(1) Some False show ?thesis by simp
    qed
  qed
qed

lemma tarjan_loop_basic:
  "0 < next_index st \<Longrightarrow> card (unvisited st) \<le> n \<Longrightarrow>
     tarjan_loop n names st \<noteq> None \<and>
     (\<forall>st'. tarjan_loop n names st = Some (Inr st') \<longrightarrow>
        mono st st' \<and> (\<forall>r \<in> set names. index_of st' r \<noteq> 0))"
proof (induction names arbitrary: st)
  case Nil
  show ?case by (simp add: mono_refl)
next
  case (Cons name rest)
  show ?case
  proof (cases "map_of (pkgs st) name")
    case None
    then show ?thesis by simp
  next
    case (Some pkg)
    note w = index_of_map_of [OF Some]
    show ?thesis
    proof (cases "index pkg = 0")
      case False
      have "mono st st' \<and> (\<forall>r \<in> set (name # rest). index_of st' r \<noteq> 0)"
        if "tarjan_loop n rest st = Some (Inr st')" for st'
      proof -
        from Cons.IH [OF Cons.prems] that
        have a: "mono st st'" "\<forall>r \<in> set rest. index_of st' r \<noteq> 0" by simp_all
        from a(1) False w(1) have "index_of st' name \<noteq> 0" by (simp add: mono_def)
        with a show ?thesis by simp
      qed
      with Cons.IH [OF Cons.prems] Some False show ?thesis by simp
    next
      case True
      from basic(1) [OF Cons.prems(1) w(3) _ Cons.prems(2)] True w(1)
      have sc: "strongConnect n name st \<noteq> None"
        "\<And>st'. strongConnect n name st = Some (Inr st') \<Longrightarrow> mono st st' \<and> index_of st' name \<noteq> 0"
        by simp_all
      then obtain r where r: "strongConnect n name st = Some r" by blast
      show ?thesis
      proof (cases r)
        case (Inl e)
        with r Some True show ?thesis by simp
      next
        case st1: (Inr st1)
        from sc(2) r st1 have m1: "mono st st1" and i1: "index_of st1 name \<noteq> 0" by simp_all
        have n1: "0 < next_index st1" using m1 Cons.prems(1) by (simp add: mono_def)
        have c1: "card (unvisited st1) \<le> n" using mono_unvisited [OF m1] Cons.prems(2) by simp
        have "mono st st' \<and> (\<forall>r \<in> set (name # rest). index_of st' r \<noteq> 0)"
          if "tarjan_loop n rest st1 = Some (Inr st')" for st'
        proof -
          from Cons.IH [OF n1 c1] that
          have a: "mono st1 st'" "\<forall>r \<in> set rest. index_of st' r \<noteq> 0" by simp_all
          from a(1) i1 have "index_of st' name \<noteq> 0" by (simp add: mono_def)
          with a mono_trans [OF m1 a(1)] show ?thesis by simp
        qed
        with Cons.IH [OF n1 c1] r st1 Some True show ?thesis by simp
      qed
    qed
  qed
qed

lemma tarjan_start_facts:
  "next_index (tarjan_start wr) = 1" "stack (tarjan_start wr) = []" "sccs (tarjan_start wr) = []"
  "pkgs (tarjan_start wr) = allPackages wr" "keys_of (tarjan_start wr) = fst ` set (allPackages wr)"
  "card (unvisited (tarjan_start wr)) \<le> length (allPackages wr)"
proof -
  have "card (unvisited (tarjan_start wr)) \<le> card (fst ` set (allPackages wr))"
    by (intro card_mono) (auto simp: unvisited_def keys_of_def tarjan_start_def)
  also have "\<dots> \<le> card (set (allPackages wr))" by (intro card_image_le) simp
  also have "\<dots> \<le> length (allPackages wr)" by (rule card_length)
  finally show "card (unvisited (tarjan_start wr)) \<le> length (allPackages wr)" .
qed (simp_all add: tarjan_start_def keys_of_def)

lemma tarjan_returns: "tarjan wr \<noteq> None"
  using tarjan_loop_basic [of "tarjan_start wr" "length (allPackages wr)" "packagesInOrder wr"]
  by (auto simp: tarjan_def tarjan_start_facts split: option.splits sum.splits)

lemma CheckCycles_returns: "CheckCycles wr \<noteq> None"
  using tarjan_returns [of wr]
  by (auto simp: CheckCycles_def Let_def split: option.splits sum.splits)

lemma fresh_index: "fresh wr \<Longrightarrow> index_of (tarjan_start wr) x = 0"
  by (auto simp: fresh_def index_of_def tarjan_start_def list_all_iff split: option.splits
      dest!: map_of_SomeD)

lemma imports_of_nil:
  "map_of pk k = Some pkg \<Longrightarrow> None \<in> set (PkgDeps pkg) \<Longrightarrow> imports_of pk k = Inl NilDereference"
  by (simp add: imports_of_def ImportedPackageComputedNames_def imported_loop_closed)

text \<open>
  What a traversal that returns has marked is closed under imports, and the stack it
  leaves extends the one it found; so the pop loop finds \<open>v\<close>, and a traversal within a
  resolved set of packages does not panic.
\<close>

lemma settled_refl: "settled st st"
  by (auto simp: settled_def)

lemma settled_trans:
  assumes "settled st st1" "settled st1 st2" "mono st1 st2"
  shows "settled st st2"
  unfolding settled_def
proof (intro allI impI)
  fix x assume x: "index_of st x = 0 \<and> index_of st2 x \<noteq> 0"
  show "\<exists>names. imports_of (pkgs st2) x = Inr names \<and> (\<forall>w \<in> set names. index_of st2 w \<noteq> 0)"
  proof (cases "index_of st1 x = 0")
    case True
    with x assms(2) show ?thesis by (simp add: settled_def)
  next
    case False
    with x assms(1) obtain names where
      n: "imports_of (pkgs st1) x = Inr names" "\<forall>w \<in> set names. index_of st1 w \<noteq> 0"
      by (auto simp: settled_def)
    from assms(3) n(1) have "imports_of (pkgs st2) x = Inr names" by (simp add: mono_def)
    moreover from assms(3) n(2) have "\<forall>w \<in> set names. index_of st2 w \<noteq> 0"
      by (simp add: mono_def)
    ultimately show ?thesis by blast
  qed
qed

lemma settled_same:
  assumes "\<And>x. index_of st' x = index_of st x"
  shows "settled st st'"
  using assms by (auto simp: settled_def)

lemma settled_pop: "pop_scc v st = Inr st' \<Longrightarrow> settled st st'"
  by (rule settled_same) (simp add: pop_scc_fields)

lemma resolved_mono: "mono st st' \<Longrightarrow> resolved R st \<Longrightarrow> resolved R st'"
  by (simp add: resolved_def mono_def)

lemma resolved_keys: "resolved R st \<Longrightarrow> x \<in> R \<Longrightarrow> x \<in> keys_of st"
  by (auto simp: resolved_def imports_of_def in_keys_iff split: option.splits)

lemma pop_scc_stack:
  assumes "pop_scc v st2 = Inr st'" "stack st2 = s0 @ v # ys"
  shows "\<exists>zs. stack st' = s0 @ zs"
proof -
  from pop_scc_Inr [OF assms(1)] obtain lo hi where
    s: "stack st2 = lo @ v # hi" "v \<notin> set hi" and st': "stack st' = lo" by auto
  from s(1) assms(2) have "lo @ v # hi = s0 @ v # ys" by simp
  then obtain us where "lo = s0 @ us \<and> us @ v # hi = v # ys \<or> lo @ us = s0 \<and> v # hi = us @ v # ys"
    by (auto simp: append_eq_append_conv2)
  then show ?thesis
  proof
    assume "lo = s0 @ us \<and> us @ v # hi = v # ys"
    with st' show ?thesis by simp
  next
    assume a: "lo @ us = s0 \<and> v # hi = us @ v # ys"
    show ?thesis
    proof (cases us)
      case Nil
      with a st' show ?thesis by simp
    next
      case (Cons u us')
      with a have "hi = us' @ v # ys" by simp
      with s(2) show ?thesis by simp
    qed
  qed
qed

lemma pop_scc_succeeds:
  assumes "v \<in> set (stack st)"
  shows "\<exists>st'. pop_scc v st = Inr st'"
proof -
  from assms obtain lo hi where "stack st = lo @ v # hi" "v \<notin> set hi"
    using split_list_last by fastforce
  from pop_scc_closed [OF this] show ?thesis by blast
qed

lemma settle:
  "0 < next_index st \<Longrightarrow> v \<in> keys_of st \<Longrightarrow> index_of st v = 0 \<Longrightarrow> card (unvisited st) \<le> n \<Longrightarrow>
     (\<forall>st'. strongConnect n v st = Some (Inr st') \<longrightarrow>
        settled st st' \<and> (\<exists>ys. stack st' = stack st @ ys))"
  "0 < next_index st \<Longrightarrow> card (unvisited st) \<le> n \<Longrightarrow>
     (\<forall>st'. visit_successors n v ws st = Some (Inr st') \<longrightarrow>
        settled st st' \<and> (\<exists>ys. stack st' = stack st @ ys))"
proof (induction n v st and n v ws st rule: strongConnect_visit_successors.induct)
  case (1 v st)
  show ?case by simp
next
  case (2 n v st)
  let ?st1 = "enter v st"
  show ?case
  proof (cases "imports_of (pkgs st) v")
    case (Inl e)
    then show ?thesis by (simp add: Let_def)
  next
    case (Inr names)
    have m1: "mono st ?st1" using "2.prems"(2,3) Inr by (rule mono_enter)
    have c1: "card (unvisited ?st1) \<le> n" using "2.prems"(2,3,1,4) by (rule unvisited_enter)
    have n1: "0 < next_index ?st1" by simp
    from basic(2) [OF n1 c1, of v names]
    have b: "\<And>st'. visit_successors n v names ?st1 = Some (Inr st') \<Longrightarrow>
        mono ?st1 st' \<and> (\<forall>w \<in> set names. index_of st' w \<noteq> 0)" by simp
    from "2.IH" [OF refl, of names] Inr c1
    have IH: "\<And>st'. visit_successors n v names ?st1 = Some (Inr st') \<Longrightarrow>
        settled ?st1 st' \<and> (\<exists>ys. stack st' = stack ?st1 @ ys)"
      by simp
    have main: "settled st st2 \<and> (\<exists>ys. stack st2 = stack st @ v # ys)"
      if r: "visit_successors n v names ?st1 = Some (Inr st2)" for st2
    proof -
      from b [OF r] have m2: "mono ?st1 st2" and vis: "\<forall>w \<in> set names. index_of st2 w \<noteq> 0"
        by simp_all
      from IH [OF r] obtain ys where s2: "settled ?st1 st2" and ys: "stack st2 = stack st @ v # ys"
        by auto
      have "settled st st2"
        unfolding settled_def
      proof (intro allI impI)
        fix x assume x: "index_of st x = 0 \<and> index_of st2 x \<noteq> 0"
        show "\<exists>names. imports_of (pkgs st2) x = Inr names \<and> (\<forall>w \<in> set names. index_of st2 w \<noteq> 0)"
        proof (cases "x = v")
          case True
          from m2 have "imports_of (pkgs st2) v = imports_of (pkgs ?st1) v" by (simp add: mono_def)
          with Inr have "imports_of (pkgs st2) v = Inr names" by simp
          with vis True show ?thesis by blast
        next
          case False
          with x "2.prems"(2) have "index_of ?st1 x = 0" by (simp add: enter_fields)
          with x s2 show ?thesis by (simp add: settled_def)
        qed
      qed
      with ys show ?thesis by blast
    qed
    have "settled st st' \<and> (\<exists>ys. stack st' = stack st @ ys)"
      if r: "visit_successors n v names ?st1 = Some (Inr st2)"
        and p: "(if lowlink_of st2 v = index_of st2 v then pop_scc v st2 else Inr st2) = Inr st'"
      for st2 st'
    proof (cases "lowlink_of st2 v = index_of st2 v")
      case False
      with p main [OF r] show ?thesis by auto
    next
      case True
      with p have pop: "pop_scc v st2 = Inr st'" by simp
      from main [OF r] obtain ys where s: "settled st st2" and ys: "stack st2 = stack st @ v # ys"
        by blast
      from settled_trans [OF s settled_pop [OF pop] mono_pop [OF pop]]
        pop_scc_stack [OF pop ys]
      show ?thesis by simp
    qed
    then show ?thesis
      using Inr by (auto simp: Let_def split: option.splits sum.splits if_splits)
  qed
next
  case (3 n v st)
  show ?case by (simp add: settled_refl)
next
  case (4 n v wName rest st)
  show ?case
  proof (cases "map_of (pkgs st) wName")
    case None
    then show ?thesis by simp
  next
    case (Some w)
    note w = index_of_map_of [OF Some]
    show ?thesis
    proof (cases "index w = 0")
      case True
      from basic(1) [OF "4.prems"(1) w(3) _ "4.prems"(2)] True w(1)
      have b: "\<And>st'. strongConnect n wName st = Some (Inr st') \<Longrightarrow> mono st st'"
        by simp
      from "4.IH"(1) [OF Some True "4.prems"(1) w(3) _ "4.prems"(2)] True w(1)
      have IH1: "\<And>st'. strongConnect n wName st = Some (Inr st') \<Longrightarrow>
          settled st st' \<and> (\<exists>ys. stack st' = stack st @ ys)"
        by simp
      have "settled st st' \<and> (\<exists>ys. stack st' = stack st @ ys)"
        if r: "strongConnect n wName st = Some (Inr st1)"
          and r': "visit_successors n v rest
             (if lowlink_of st1 wName < lowlink_of st1 v
              then set_lowlink v (lowlink_of st1 wName) st1 else st1) = Some (Inr st')"
        for st1 st'
      proof -
        let ?st1' = "if lowlink_of st1 wName < lowlink_of st1 v
               then set_lowlink v (lowlink_of st1 wName) st1 else st1"
        from b [OF r] have m1: "mono st st1" .
        have m1': "mono st1 ?st1'" by (simp add: mono_set_lowlink mono_refl)
        have m: "mono st ?st1'" using m1 m1' by (rule mono_trans)
        have n1: "0 < next_index ?st1'" using m "4.prems"(1) by (simp add: mono_def)
        have c1: "card (unvisited ?st1') \<le> n"
          using mono_unvisited [OF m] "4.prems"(2) by simp
        from IH1 [OF r] obtain ys where s1: "settled st st1" and ys: "stack st1 = stack st @ ys"
          by blast
        have s1': "settled st1 ?st1'" by (rule settled_same) simp
        have st1': "stack ?st1' = stack st1" by simp
        from "4.IH"(2) [OF Some True r refl n1 c1] r'
        obtain zs where s2: "settled ?st1' st'" and zs: "stack st' = stack ?st1' @ zs"
          by auto
        from basic(2) [OF n1 c1, of v rest] r' have m2: "mono ?st1' st'" by simp
        have "settled st ?st1'" using s1 s1' m1' by (rule settled_trans)
        then have "settled st st'" using s2 m2 by (rule settled_trans)
        with zs st1' ys show ?thesis by simp
      qed
      with Some True show ?thesis
        by (auto split: option.splits sum.splits)
    next
      case False
      let ?st1' = "if onStack w \<and> index w < lowlink_of st v then set_lowlink v (index w) st else st"
      have m: "mono st ?st1'" by (simp add: mono_set_lowlink mono_refl)
      have n1: "0 < next_index ?st1'" using "4.prems"(1) by simp
      have c1: "card (unvisited ?st1') \<le> n"
        using mono_unvisited [OF m] "4.prems"(2) by simp
      have s1': "settled st ?st1'" by (rule settled_same) simp
      have "settled st st' \<and> (\<exists>ys. stack st' = stack st @ ys)"
        if r': "visit_successors n v rest ?st1' = Some (Inr st')" for st'
      proof -
        from "4.IH"(3) [OF Some False n1 c1] r'
        obtain zs where s2: "settled ?st1' st'" and zs: "stack st' = stack ?st1' @ zs"
          by auto
        from basic(2) [OF n1 c1, of v rest] r' have m2: "mono ?st1' st'" by simp
        have "settled st st'" using s1' s2 m2 by (rule settled_trans)
        moreover have "stack ?st1' = stack st" by simp
        ultimately show ?thesis using zs by simp
      qed
      with Some False show ?thesis by simp
    qed
  qed
qed


lemma no_panic:
  "0 < next_index st \<Longrightarrow> index_of st v = 0 \<Longrightarrow> card (unvisited st) \<le> n \<Longrightarrow>
     resolved R st \<Longrightarrow> v \<in> R \<Longrightarrow> (\<exists>st'. strongConnect n v st = Some (Inr st'))"
  "0 < next_index st \<Longrightarrow> card (unvisited st) \<le> n \<Longrightarrow>
     resolved R st \<Longrightarrow> set ws \<subseteq> R \<Longrightarrow> (\<exists>st'. visit_successors n v ws st = Some (Inr st'))"
proof (induction n v st and n v ws st rule: strongConnect_visit_successors.induct)
  case (1 v st)
  from resolved_keys [OF "1.prems"(4,5)] "1.prems"(2)
  have "v \<in> unvisited st" by (simp add: unvisited_def)
  moreover have "finite (unvisited st)" by (simp add: unvisited_def finite_keys)
  ultimately have "card (unvisited st) \<noteq> 0" by auto
  with 1 show ?case by simp
next
  case (2 n v st)
  let ?st1 = "enter v st"
  note k = resolved_keys [OF "2.prems"(4,5)]
  from "2.prems"(4,5) obtain names where
    Inr: "imports_of (pkgs st) v = Inr names" and sub: "set names \<subseteq> R"
    by (auto simp: resolved_def)
  have m1: "mono st ?st1" using k "2.prems"(2) Inr by (rule mono_enter)
  have c1: "card (unvisited ?st1) \<le> n" using k "2.prems"(2,1,3) by (rule unvisited_enter)
  have n1: "0 < next_index ?st1" by simp
  have r1: "resolved R ?st1" using m1 "2.prems"(4) by (rule resolved_mono)
  from "2.IH" [OF refl _ n1 c1 r1 sub] Inr
  obtain st2 where r: "visit_successors n v names ?st1 = Some (Inr st2)" by auto
  from settle(2) [OF n1 c1, of v names] r obtain ys where "stack st2 = stack ?st1 @ ys"
    by auto
  then have "v \<in> set (stack st2)" by simp
  from pop_scc_succeeds [OF this] obtain st' where "pop_scc v st2 = Inr st'" by blast
  with r Inr show ?case by (simp add: Let_def)
next
  case (3 n v st)
  show ?case by simp
next
  case (4 n v wName rest st)
  from "4.prems"(4) have wR: "wName \<in> R" and rest: "set rest \<subseteq> R" by simp_all
  from resolved_keys [OF "4.prems"(3) wR] obtain w where Some: "map_of (pkgs st) wName = Some w"
    by (auto simp: in_keys_iff)
  note w = index_of_map_of [OF Some]
  show ?case
  proof (cases "index w = 0")
    case True
    from "4.IH"(1) [OF Some True "4.prems"(1) _ "4.prems"(2,3) wR] True w(1)
    obtain st1 where r: "strongConnect n wName st = Some (Inr st1)" by auto
    let ?st1' = "if lowlink_of st1 wName < lowlink_of st1 v
               then set_lowlink v (lowlink_of st1 wName) st1 else st1"
    from basic(1) [OF "4.prems"(1) w(3) _ "4.prems"(2)] True w(1) r
    have m1: "mono st st1" by simp
    have m1': "mono st1 ?st1'" by (simp add: mono_set_lowlink mono_refl)
    have m: "mono st ?st1'" using m1 m1' by (rule mono_trans)
    have n1: "0 < next_index ?st1'" using m "4.prems"(1) by (simp add: mono_def)
    have c1: "card (unvisited ?st1') \<le> n"
      using mono_unvisited [OF m] "4.prems"(2) by simp
    have r1: "resolved R ?st1'" using m "4.prems"(3) by (rule resolved_mono)
    from "4.IH"(2) [OF Some True r refl n1 c1 r1 rest]
    show ?thesis using Some True r by simp
  next
    case False
    let ?st1' = "if onStack w \<and> index w < lowlink_of st v then set_lowlink v (index w) st else st"
    have m: "mono st ?st1'" by (simp add: mono_set_lowlink mono_refl)
    have n1: "0 < next_index ?st1'" using "4.prems"(1) by simp
    have c1: "card (unvisited ?st1') \<le> n"
      using mono_unvisited [OF m] "4.prems"(2) by simp
    have r1: "resolved R ?st1'" using m "4.prems"(3) by (rule resolved_mono)
    from "4.IH"(3) [OF Some False n1 c1 r1 rest]
    show ?thesis using Some False by simp
  qed
qed

lemma tarjan_loop_settle:
  "0 < next_index st \<Longrightarrow> card (unvisited st) \<le> n \<Longrightarrow>
     tarjan_loop n names st = Some (Inr st') \<Longrightarrow> settled st st'"
proof (induction names arbitrary: st)
  case Nil
  then show ?case by (simp add: settled_refl)
next
  case (Cons name rest)
  show ?case
  proof (cases "map_of (pkgs st) name")
    case None
    with Cons.prems show ?thesis by simp
  next
    case (Some pkg)
    note w = index_of_map_of [OF Some]
    show ?thesis
    proof (cases "index pkg = 0")
      case False
      with Cons.IH [OF Cons.prems(1,2)] Cons.prems(3) Some show ?thesis by simp
    next
      case True
      from Cons.prems(3) Some True obtain st1 where
        r: "strongConnect n name st = Some (Inr st1)" and r': "tarjan_loop n rest st1 = Some (Inr st')"
        by (auto split: option.splits sum.splits)
      from basic(1) [OF Cons.prems(1) w(3) _ Cons.prems(2)] True w(1) r
      have m1: "mono st st1" by simp
      from settle(1) [OF Cons.prems(1) w(3) _ Cons.prems(2)] True w(1) r
      have s1: "settled st st1" by simp
      have n1: "0 < next_index st1" using m1 Cons.prems(1) by (simp add: mono_def)
      have c1: "card (unvisited st1) \<le> n" using mono_unvisited [OF m1] Cons.prems(2) by simp
      from Cons.IH [OF n1 c1 r'] have s2: "settled st1 st'" .
      from tarjan_loop_basic [OF n1 c1, of rest] r' have "mono st1 st'" by simp
      with s1 s2 show ?thesis by (rule settled_trans)
    qed
  qed
qed

lemma tarjan_loop_no_panic:
  "0 < next_index st \<Longrightarrow> card (unvisited st) \<le> n \<Longrightarrow> resolved R st \<Longrightarrow> set names \<subseteq> R \<Longrightarrow>
     \<exists>st'. tarjan_loop n names st = Some (Inr st')"
proof (induction names arbitrary: st)
  case Nil
  then show ?case by simp
next
  case (Cons name rest)
  from Cons.prems(4) have nR: "name \<in> R" and rest: "set rest \<subseteq> R" by simp_all
  from resolved_keys [OF Cons.prems(3) nR] obtain pkg where Some: "map_of (pkgs st) name = Some pkg"
    by (auto simp: in_keys_iff)
  note w = index_of_map_of [OF Some]
  show ?case
  proof (cases "index pkg = 0")
    case False
    with Cons.IH [OF Cons.prems(1,2,3) rest] Some show ?thesis by simp
  next
    case True
    from no_panic(1) [OF Cons.prems(1) _ Cons.prems(2,3) nR] True w(1)
    obtain st1 where r: "strongConnect n name st = Some (Inr st1)" by auto
    from basic(1) [OF Cons.prems(1) w(3) _ Cons.prems(2)] True w(1) r
    have m1: "mono st st1" by simp
    have n1: "0 < next_index st1" using m1 Cons.prems(1) by (simp add: mono_def)
    have c1: "card (unvisited st1) \<le> n" using mono_unvisited [OF m1] Cons.prems(2) by simp
    have r1: "resolved R st1" using m1 Cons.prems(3) by (rule resolved_mono)
    from Cons.IH [OF n1 c1 r1 rest] r Some True show ?thesis by simp
  qed
qed

lemma reachable_resolved:
  assumes "\<forall>x \<in> reachable wr. \<exists>names. imports_of (allPackages wr) x = Inr names"
  shows "resolved (reachable wr) (tarjan_start wr)"
  unfolding resolved_def
proof
  fix x assume x: "x \<in> reachable wr"
  with assms obtain names where n: "imports_of (allPackages wr) x = Inr names" by blast
  have "w \<in> reachable wr" if "w \<in> set names" for w
  proof -
    from n that have "(x, w) \<in> import_edges (allPackages wr)" by (auto simp: import_edges_def)
    with x show ?thesis unfolding reachable_def by (auto intro: rtrancl_into_rtrancl)
  qed
  with n show "\<exists>names. imports_of (pkgs (tarjan_start wr)) x = Inr names \<and> set names \<subseteq> reachable wr"
    by (auto simp: tarjan_start_facts)
qed

lemma settled_reachable:
  assumes "fresh wr"
    and "tarjan_loop (length (allPackages wr)) (packagesInOrder wr) (tarjan_start wr) = Some (Inr st')"
    and "x \<in> reachable wr"
  shows "index_of st' x \<noteq> 0 \<and> (\<exists>names. imports_of (allPackages wr) x = Inr names)"
proof -
  let ?st = "tarjan_start wr"
  let ?n = "length (allPackages wr)"
  have n0: "0 < next_index ?st" and c0: "card (unvisited ?st) \<le> ?n"
    by (simp_all add: tarjan_start_facts)
  from tarjan_loop_basic [OF n0 c0, of "packagesInOrder wr"] assms(2)
  have m: "mono ?st st'" and roots: "\<forall>r \<in> set (packages wr). index_of st' r \<noteq> 0"
    by (simp_all add: packagesInOrder_def)
  from tarjan_loop_settle [OF n0 c0 assms(2)] have s: "settled ?st st'" .
  have step: "\<exists>names. imports_of (allPackages wr) y = Inr names \<and> (\<forall>w \<in> set names. index_of st' w \<noteq> 0)"
    if "index_of st' y \<noteq> 0" for y
  proof -
    from s that fresh_index [OF assms(1), of y]
    obtain names where "imports_of (pkgs st') y = Inr names" "\<forall>w \<in> set names. index_of st' w \<noteq> 0"
      by (auto simp: settled_def)
    moreover from m have "imports_of (pkgs st') y = imports_of (allPackages wr) y"
      by (simp add: mono_def tarjan_start_facts)
    ultimately show ?thesis by auto
  qed
  from assms(3) obtain r where r: "r \<in> set (packages wr)"
    and p: "(r, x) \<in> (import_edges (allPackages wr))\<^sup>*"
    by (auto simp: reachable_def)
  from p have "index_of st' x \<noteq> 0"
  proof (induction rule: rtrancl_induct)
    case base
    from roots r show ?case by simp
  next
    case (step y z)
    from step.hyps(2) obtain names where "imports_of (allPackages wr) y = Inr names" "z \<in> set names"
      by (auto simp: import_edges_def)
    with \<open>\<And>y. index_of st' y \<noteq> 0 \<Longrightarrow> \<exists>names. imports_of (allPackages wr) y = Inr names \<and> (\<forall>w \<in> set names. index_of st' w \<noteq> 0)\<close> [OF step.IH]
    show ?case by auto
  qed
  with step show ?thesis by blast
qed

lemma tarjan_panics_iff:
  assumes "fresh wr"
  shows "(\<exists>e. tarjan wr = Some (Inl e))
     \<longleftrightarrow> (\<exists>x \<in> reachable wr. \<exists>e. imports_of (allPackages wr) x = Inl e)"
proof
  assume "\<exists>e. tarjan wr = Some (Inl e)"
  show "\<exists>x \<in> reachable wr. \<exists>e. imports_of (allPackages wr) x = Inl e"
  proof (rule ccontr)
    assume "\<not> ?thesis"
    then have "\<forall>x \<in> reachable wr. \<exists>names. imports_of (allPackages wr) x = Inr names"
      by (metis sum.exhaust)
    then have "resolved (reachable wr) (tarjan_start wr)" by (rule reachable_resolved)
    moreover have "set (packagesInOrder wr) \<subseteq> reachable wr"
      by (auto simp: packagesInOrder_def reachable_def)
    ultimately obtain st' where
      "tarjan_loop (length (allPackages wr)) (packagesInOrder wr) (tarjan_start wr) = Some (Inr st')"
      using tarjan_loop_no_panic [of "tarjan_start wr" "length (allPackages wr)" "reachable wr"
          "packagesInOrder wr"]
      by (auto simp: tarjan_start_facts)
    with \<open>\<exists>e. tarjan wr = Some (Inl e)\<close> show False by (simp add: tarjan_def)
  qed
next
  assume "\<exists>x \<in> reachable wr. \<exists>e. imports_of (allPackages wr) x = Inl e"
  then obtain x e where x: "x \<in> reachable wr" "imports_of (allPackages wr) x = Inl e" by blast
  have "tarjan_loop (length (allPackages wr)) (packagesInOrder wr) (tarjan_start wr) \<noteq> Some (Inr st')"
    for st'
    using settled_reachable [OF assms _ x(1), of st'] x(2) by auto
  with tarjan_returns [of wr] show "\<exists>e. tarjan wr = Some (Inl e)"
    by (auto simp: tarjan_def split: option.splits sum.splits)
qed

lemma CheckCycles_panics_iff:
  assumes "fresh wr"
  shows "(\<exists>e. CheckCycles wr = Some (Inl e))
     \<longleftrightarrow> (\<exists>x \<in> reachable wr. \<exists>e. imports_of (allPackages wr) x = Inl e)"
  unfolding tarjan_panics_iff [OF assms, symmetric]
  by (auto simp: CheckCycles_def Let_def split: option.splits sum.splits)

subsection \<open>tarjan: the components\<close>

lemma loop_rel_refl: "loop_rel E v st st"
  by (auto simp: loop_rel_def)

lemma loop_rel_trans:
  assumes "loop_rel E v st st1" "loop_rel E v st1 st2"
  shows "loop_rel E v st st2"
  unfolding loop_rel_def
proof (intro conjI allI impI)
  show "next_index st \<le> next_index st2"
    using assms by (auto simp: loop_rel_def)
  show "index_of st2 x = index_of st x" if "index_of st x \<noteq> 0" for x
    using assms that by (auto simp: loop_rel_def)
  show "lowlink_of st2 x = lowlink_of st x" if "index_of st x \<noteq> 0 \<and> x \<noteq> v" for x
    using assms that by (auto simp: loop_rel_def)
  show "lowlink_of st2 v \<le> lowlink_of st v"
    using assms by (auto simp: loop_rel_def)
  show "\<exists>new. sccs st2 = sccs st @ new"
    using assms by (auto simp: loop_rel_def)
  show "bad st2" if "bad st"
    using assms that by (auto simp: loop_rel_def)
  fix x assume x: "index_of st x = 0 \<and> index_of st2 x \<noteq> 0"
  show "(v, x) \<in> E\<^sup>*" "next_index st \<le> index_of st2 x"
  proof -
    have "(v, x) \<in> E\<^sup>* \<and> next_index st \<le> index_of st2 x"
    proof (cases "index_of st1 x = 0")
      case True
      with x assms(2) have "(v, x) \<in> E\<^sup>*" "next_index st1 \<le> index_of st2 x"
        by (auto simp: loop_rel_def)
      moreover have "next_index st \<le> next_index st1" using assms(1) by (simp add: loop_rel_def)
      ultimately show ?thesis by simp
    next
      case False
      with x assms(1) have "(v, x) \<in> E\<^sup>*" "next_index st \<le> index_of st1 x"
        by (auto simp: loop_rel_def)
      moreover have "index_of st2 x = index_of st1 x"
        using False assms(2) by (auto simp: loop_rel_def)
      ultimately show ?thesis by simp
    qed
    then show "(v, x) \<in> E\<^sup>*" "next_index st \<le> index_of st2 x" by simp_all
  qed
qed

lemma grows_loop_rel:
  assumes "grows E w st st1" "(v, w) \<in> E\<^sup>*" "index_of st v \<noteq> 0"
  shows "loop_rel E v st st1"
  unfolding loop_rel_def
proof (intro conjI allI impI)
  show "next_index st \<le> next_index st1" "\<exists>new. sccs st1 = sccs st @ new"
    using assms(1) by (simp_all add: grows_def)
  show "lowlink_of st1 v \<le> lowlink_of st v"
    using assms(1,3) by (simp add: grows_def)
  show "index_of st1 x = index_of st x" if "index_of st x \<noteq> 0" for x
    using assms(1) that by (simp add: grows_def)
  show "lowlink_of st1 x = lowlink_of st x" if "index_of st x \<noteq> 0 \<and> x \<noteq> v" for x
    using assms(1) that by (simp add: grows_def)
  show "bad st1" if "bad st"
    using assms(1) that by (simp add: grows_def)
  fix x assume x: "index_of st x = 0 \<and> index_of st1 x \<noteq> 0"
  with assms(1) have "(w, x) \<in> E\<^sup>*" and n: "next_index st \<le> index_of st1 x"
    by (auto simp: grows_def)
  with assms(2) show "(v, x) \<in> E\<^sup>*" by (meson rtrancl_trans)
  from n show "next_index st \<le> index_of st1 x" .
qed

lemma inv_struct_enter:
  assumes "inv_struct st" "v \<in> keys_of st" "index_of st v = 0"
  shows "inv_struct (enter v st)"
proof -
  note f = enter_fields [OF assms(2)]
  from assms(1) have
    1: "0 < next_index st" and
    2: "\<And>x. index_of st x < next_index st" and
    3: "\<And>x y. index_of st x = index_of st y \<Longrightarrow> index_of st x \<noteq> 0 \<Longrightarrow> x = y" and
    4: "distinct (stack st)" and
    5: "\<And>x. onStack_of st x \<longleftrightarrow> x \<in> set (stack st)" and
    6: "\<And>x. x \<in> set (stack st) \<Longrightarrow> index_of st x \<noteq> 0" and
    7: "sorted_wrt (\<lambda>a b. index_of st a < index_of st b) (stack st)" and
    8: "\<And>x. index_of st x \<noteq> 0 \<Longrightarrow> x \<notin> set (stack st) \<Longrightarrow> x \<in> components st" and
    9: "\<And>x. x \<in> components st \<Longrightarrow> index_of st x \<noteq> 0 \<and> x \<notin> set (stack st)"
    unfolding inv_struct_def by blast+
  have v: "v \<notin> set (stack st)" "v \<notin> components st"
    using 6 9 assms(3) by blast+
  have c: "components (enter v st) = components st" by (simp add: components_def)
  have s: "sorted_wrt (\<lambda>a b. index_of (enter v st) a < index_of (enter v st) b) (stack st)"
    using 7 v(1) by (auto simp: f intro: sorted_wrt_mono_rel [rotated])
  show ?thesis
    unfolding inv_struct_def c
  proof (intro conjI allI impI ballI)
    show "0 < next_index (enter v st)" by simp
    show "index_of (enter v st) x < next_index (enter v st)" for x
      using 2 [of x] by (simp add: f)
    show "x = y" if "index_of (enter v st) x = index_of (enter v st) y \<and> index_of (enter v st) x \<noteq> 0"
      for x y
      using that 2 [of x] 2 [of y] 3 [of x y] by (auto simp: f split: if_splits)
    show "distinct (stack (enter v st))" using 4 v by simp
    show "onStack_of (enter v st) x \<longleftrightarrow> x \<in> set (stack (enter v st))" for x
      using 5 [of x] by (auto simp: f)
    show "index_of (enter v st) x \<noteq> 0" if "x \<in> set (stack (enter v st))" for x
      using that 6 [of x] 1 by (auto simp: f)
    show "sorted_wrt (\<lambda>a b. index_of (enter v st) a < index_of (enter v st) b) (stack (enter v st))"
      using s 2 v(1) by (auto simp: sorted_wrt_append f)
    show "x \<in> components st" if "index_of (enter v st) x \<noteq> 0 \<and> x \<notin> set (stack (enter v st))" for x
      using that 8 [of x] by (auto simp: f split: if_splits)
    show "index_of (enter v st) x \<noteq> 0" "x \<notin> set (stack (enter v st))" if "x \<in> components st" for x
      using that 9 [of x] v by (auto simp: f)
  qed
qed


lemma inv_structD:
  assumes "inv_struct st"
  shows "0 < next_index st"
    and "index_of st x < next_index st"
    and "index_of st x = index_of st y \<Longrightarrow> index_of st x \<noteq> 0 \<Longrightarrow> x = y"
    and "distinct (stack st)"
    and "onStack_of st x \<longleftrightarrow> x \<in> set (stack st)"
    and "x \<in> set (stack st) \<Longrightarrow> index_of st x \<noteq> 0"
    and "sorted_wrt (\<lambda>a b. index_of st a < index_of st b) (stack st)"
    and "index_of st x \<noteq> 0 \<Longrightarrow> x \<notin> set (stack st) \<Longrightarrow> x \<in> components st"
    and "x \<in> components st \<Longrightarrow> index_of st x \<noteq> 0 \<and> x \<notin> set (stack st)"
  using assms unfolding inv_struct_def by blast+

lemma visited_in_keys: "index_of st v \<noteq> 0 \<Longrightarrow> v \<in> keys_of st"
  by (auto simp: index_of_def in_keys_iff split: option.splits)

lemma stack_order:
  assumes "inv_struct st" "stack st = s0 @ v # rest"
  shows "x \<in> set s0 \<Longrightarrow> index_of st x < index_of st v"
    and "x \<in> set rest \<Longrightarrow> index_of st v < index_of st x"
    and "x \<in> set s0 \<Longrightarrow> y \<in> set rest \<Longrightarrow> index_of st x < index_of st y"
    and "v \<notin> set s0" and "v \<notin> set rest" and "set s0 \<inter> set rest = {}"
  using inv_structD(7) [OF assms(1)] inv_structD(4) [OF assms(1)]
  unfolding assms(2) by (auto simp: sorted_wrt_append)

lemma bad_enter:
  assumes "inv_struct st" "v \<in> keys_of st" "index_of st v = 0" "bad st"
  shows "bad (enter v st)"
proof -
  have "v \<notin> set (stack st)" using inv_structD(6) [OF assms(1)] assms(3) by blast
  then have "lowlink_of (enter v st) x = lowlink_of st x \<and> index_of (enter v st) x = index_of st x"
    if "x \<in> set (stack st)" for x
    using that by (auto simp: enter_fields [OF assms(2)])
  with assms(4) show ?thesis
    unfolding bad_def by (auto simp del: enter_simps(3) simp: enter_simps)
qed

lemma inv_low_enter:
  assumes "inv_struct st" "inv_low E st" "v \<in> keys_of st" "index_of st v = 0"
  shows "inv_low E (enter v st)"
proof -
  note f = enter_fields [OF assms(3)]
  have v: "v \<notin> set (stack st)" using inv_structD(6) [OF assms(1)] assms(4) by blast
  show ?thesis
    unfolding inv_low_def
  proof (intro ballI)
    fix x assume "x \<in> set (stack (enter v st))"
    then consider "x = v" | "x \<in> set (stack st)" by auto
    then show "lowlink_of (enter v st) x \<le> index_of (enter v st) x \<and>
        (\<exists>t \<in> set (stack (enter v st)). index_of (enter v st) t = lowlink_of (enter v st) x
            \<and> (x, t) \<in> E\<^sup>*)"
    proof cases
      case 1
      then show ?thesis by (auto simp: f)
    next
      case 2
      with assms(2) obtain t where "lowlink_of st x \<le> index_of st x" "t \<in> set (stack st)"
        "index_of st t = lowlink_of st x" "(x, t) \<in> E\<^sup>*"
        unfolding inv_low_def by blast
      with 2 v show ?thesis by (auto simp: f intro!: bexI [of _ t])
    qed
  qed
qed

lemma Inv_enter:
  assumes "Inv K G R st" "v \<in> K" "index_of st v = 0" "v \<in> (edges K G)\<^sup>* `` R"
  shows "Inv K G R (enter v st)"
    and "loop_state (edges K G) v (stack st) [] (enter v st)"
    and "grows (edges K G) v st (enter v st)"
    and "index_of (enter v st) v = next_index st"
    and "lowlink_of (enter v st) v = next_index st"
proof -
  from assms(1) have g: "graph_ok K G st" and s: "inv_struct st" and l: "inv_low (edges K G) st"
    and so: "inv_sound (edges K G) R st" and c: "inv_compl (edges K G) st"
    by (simp_all add: Inv_def)
  from g assms(2) have k: "v \<in> keys_of st" by (auto simp: graph_ok_def)
  note f = enter_fields [OF k]
  have "graph_ok K G (enter v st)" using g by (simp add: graph_ok_def)
  moreover have "inv_struct (enter v st)" using s k assms(3) by (rule inv_struct_enter)
  moreover have "inv_low (edges K G) (enter v st)" using s l k assms(3) by (rule inv_low_enter)
  moreover have "inv_sound (edges K G) R (enter v st)"
    using so assms(4) by (auto simp: inv_sound_def f)
  moreover have "inv_compl (edges K G) (enter v st)"
    using c bad_enter [OF s k assms(3)] by (auto simp: inv_compl_def)
  ultimately show "Inv K G R (enter v st)" by (simp add: Inv_def)
  show "loop_state (edges K G) v (stack st) [] (enter v st)"
    by (simp add: loop_state_def)
  show "grows (edges K G) v st (enter v st)"
    using bad_enter [OF s k assms(3)] assms(3) by (auto simp: grows_def f)
  show "index_of (enter v st) v = next_index st" "lowlink_of (enter v st) v = next_index st"
    by (simp_all add: f)
qed

lemma inv_struct_set_lowlink: "inv_struct (set_lowlink v l st) = inv_struct st"
  by (simp add: inv_struct_def components_def)

lemma bad_set_lowlink:
  assumes "bad st" "v \<in> keys_of st" "l \<le> lowlink_of st v"
  shows "bad (set_lowlink v l st)"
proof -
  have "lowlink_of (set_lowlink v l st) x \<le> lowlink_of st x" for x
    using assms(3) by (simp add: lowlink_of_set_lowlink [OF assms(2)])
  then have "lowlink_of (set_lowlink v l st) x < index_of st x" if "lowlink_of st x < index_of st x" for x
    using that by (meson le_less_trans)
  with assms(1) show ?thesis
    unfolding bad_def by auto
qed

lemma Inv_set_lowlink:
  assumes "Inv K G R st" "v \<in> set (stack st)" "l \<le> lowlink_of st v"
    and "t \<in> set (stack st)" "index_of st t = l" "(v, t) \<in> (edges K G)\<^sup>*"
  shows "Inv K G R (set_lowlink v l st)"
proof -
  from assms(1) have g: "graph_ok K G st" and s: "inv_struct st" and lo: "inv_low (edges K G) st"
    and so: "inv_sound (edges K G) R st" and c: "inv_compl (edges K G) st"
    by (simp_all add: Inv_def)
  have k: "v \<in> keys_of st"
    using inv_structD(6) [OF s assms(2)] by (rule visited_in_keys)
  note f = lowlink_of_set_lowlink [OF k]
  have "graph_ok K G (set_lowlink v l st)" using g by (simp add: graph_ok_def)
  moreover have "inv_struct (set_lowlink v l st)" using s by (simp add: inv_struct_set_lowlink)
  moreover have "inv_low (edges K G) (set_lowlink v l st)"
    unfolding inv_low_def
  proof (intro ballI)
    fix x assume x: "x \<in> set (stack (set_lowlink v l st))"
    show "lowlink_of (set_lowlink v l st) x \<le> index_of (set_lowlink v l st) x \<and>
        (\<exists>t \<in> set (stack (set_lowlink v l st)).
            index_of (set_lowlink v l st) t = lowlink_of (set_lowlink v l st) x
            \<and> (x, t) \<in> (edges K G)\<^sup>*)"
    proof (cases "x = v")
      case True
      from lo assms(2) have "lowlink_of st v \<le> index_of st v" by (simp add: inv_low_def)
      with assms(3-6) True show ?thesis by (auto simp: f)
    next
      case False
      with lo x show ?thesis by (simp add: inv_low_def f)
    qed
  qed
  moreover have "inv_sound (edges K G) R (set_lowlink v l st)"
    using so by (simp add: inv_sound_def)
  moreover have "inv_compl (edges K G) (set_lowlink v l st)"
    using c bad_set_lowlink [OF _ k assms(3)] by (auto simp: inv_compl_def)
  ultimately show ?thesis by (simp add: Inv_def)
qed

lemma loop_rel_set_lowlink:
  assumes "v \<in> keys_of st" "l \<le> lowlink_of st v"
  shows "loop_rel E v st (set_lowlink v l st)"
  using assms bad_set_lowlink [OF _ assms]
  by (auto simp: loop_rel_def lowlink_of_set_lowlink)


lemma pop_result:
  assumes "stack st = s0 @ v # rest" "v \<notin> set rest"
  shows "\<exists>st'. pop_scc v st = Inr st' \<and> stack st' = s0 \<and> sccs st' = sccs st @ [rev rest @ [v]]
      \<and> next_index st' = next_index st \<and> keys_of st' = keys_of st
      \<and> (\<forall>x. imports_of (pkgs st') x = imports_of (pkgs st) x)
      \<and> (\<forall>x. index_of st' x = index_of st x) \<and> (\<forall>x. lowlink_of st' x = lowlink_of st x)
      \<and> (\<forall>x. onStack_of st' x \<longleftrightarrow> onStack_of st x \<and> x \<notin> set (v # rest))"
proof -
  let ?st' = "st\<lparr>stack := s0, pkgs := clear_onStack (rev rest @ [v]) (pkgs st),
                               sccs := sccs st @ [rev rest @ [v]]\<rparr>"
  have p: "pop_scc v st = Inr ?st'" using assms by (rule pop_scc_closed)
  have o: "onStack_of ?st' x \<longleftrightarrow> onStack_of st x \<and> x \<notin> set (v # rest)" for x
    using clear_onStack_facts(6) [of "rev rest @ [v]" "pkgs st" x]
    by (cases "map_of (pkgs st) x") (auto simp: onStack_of_def)
  have "stack ?st' = s0" "sccs ?st' = sccs st @ [rev rest @ [v]]" by simp_all
  moreover note pop_scc_fields(6,1) [OF p]
  moreover have "\<forall>x. imports_of (pkgs ?st') x = imports_of (pkgs st) x"
    using pop_scc_fields(3) [OF p] by blast
  moreover have "\<forall>x. index_of ?st' x = index_of st x"
    using pop_scc_fields(4) [OF p] by blast
  moreover have "\<forall>x. lowlink_of ?st' x = lowlink_of st x"
    using pop_scc_fields(5) [OF p] by blast
  moreover have "\<forall>x. onStack_of ?st' x \<longleftrightarrow> onStack_of st x \<and> x \<notin> set (v # rest)"
    using o by blast
  ultimately show ?thesis using p by blast
qed

lemma chain_to_root:
  assumes s: "inv_struct st" and l: "inv_low E st" and ls: "loop_state E v s0 rest st"
    and root: "lowlink_of st v = index_of st v"
  shows "x \<in> set (v # rest) \<Longrightarrow> (x, v) \<in> E\<^sup>*"
proof (induction "index_of st x" arbitrary: x rule: less_induct)
  case less
  show ?case
  proof (cases "x = v")
    case True
    then show ?thesis by simp
  next
    case False
    with less.prems have xr: "x \<in> set rest" by simp
    from ls have st: "stack st = s0 @ v # rest" by (simp add: loop_state_def)
    from ls xr have lx: "lowlink_of st x < index_of st x" "lowlink_of st v \<le> lowlink_of st x"
      by (simp_all add: loop_state_def)
    from xr st have "x \<in> set (stack st)" by simp
    with l obtain t where t: "t \<in> set (stack st)" "index_of st t = lowlink_of st x" "(x, t) \<in> E\<^sup>*"
      unfolding inv_low_def by blast
    have "t \<notin> set s0"
      using stack_order(1) [OF s st, of t] t(2) lx(2) root by auto
    with t(1) st have "t \<in> set (v # rest)" by auto
    moreover have "index_of st t < index_of st x" using t(2) lx(1) by simp
    ultimately have "(t, v) \<in> E\<^sup>*" by (rule less.hyps [rotated])
    with t(3) show ?thesis by (rule rtrancl_trans)
  qed
qed

lemma topo_snoc:
  assumes "topo E cs"
    and "\<And>x y. x \<in> set c \<Longrightarrow> (x, y) \<in> E \<Longrightarrow> \<exists>j < length cs. y \<in> set (cs ! j)"
  shows "topo E (cs @ [c])"
  unfolding topo_def
proof (intro allI impI ballI)
  fix i x y
  assume i: "i < length (cs @ [c])" and x: "x \<in> set ((cs @ [c]) ! i)" and e: "(x, y) \<in> E"
  show "\<exists>j<i. y \<in> set ((cs @ [c]) ! j)"
  proof (cases "i < length cs")
    case True
    with x have "x \<in> set (cs ! i)" by (simp add: nth_append)
    with assms(1) True e obtain j where j: "j < i" "y \<in> set (cs ! j)"
      unfolding topo_def by blast
    with True have "(cs @ [c]) ! j = cs ! j" by (simp add: nth_append)
    with j show ?thesis by auto
  next
    case False
    with i have il: "i = length cs" by simp
    with x have "x \<in> set c" by simp
    with assms(2) e obtain j where j: "j < length cs" "y \<in> set (cs ! j)" by blast
    then have "(cs @ [c]) ! j = cs ! j" by (simp add: nth_append)
    with j il show ?thesis by auto
  qed
qed

lemma in_components_nth: "y \<in> components st \<Longrightarrow> \<exists>j < length (sccs st). y \<in> set (sccs st ! j)"
  unfolding components_def by (metis UN_E in_set_conv_nth)


lemma Inv_pop:
  assumes I: "Inv K G R st" and ls: "loop_state (edges K G) v s0 rest st"
    and root: "lowlink_of st v = index_of st v" and vK: "v \<in> K"
    and fin: "bad st \<or> set (G v) \<subseteq> components st"
  shows "\<exists>st'. pop_scc v st = Inr st' \<and> Inv K G R st' \<and> stack st' = s0
      \<and> sccs st' = sccs st @ [rev rest @ [v]]
      \<and> next_index st' = next_index st
      \<and> (\<forall>x. index_of st' x = index_of st x) \<and> (\<forall>x. lowlink_of st' x = lowlink_of st x)
      \<and> (bad st \<longrightarrow> bad st')"
proof -
  let ?E = "edges K G"
  from I have g: "graph_ok K G st" and s: "inv_struct st" and lo: "inv_low ?E st"
    and so: "inv_sound ?E R st" and c: "inv_compl ?E st"
    by (simp_all add: Inv_def)
  from ls have st: "stack st = s0 @ v # rest" by (simp add: loop_state_def)
  note ord = stack_order [OF s st]
  from pop_result [OF st ord(5)] obtain st' where
    p: "pop_scc v st = Inr st'" and st': "stack st' = s0"
    and sc: "sccs st' = sccs st @ [rev rest @ [v]]"
    and ni: "next_index st' = next_index st" and ke: "keys_of st' = keys_of st"
    and im: "\<And>x. imports_of (pkgs st') x = imports_of (pkgs st) x"
    and ix: "\<And>x. index_of st' x = index_of st x"
    and ll: "\<And>x. lowlink_of st' x = lowlink_of st x"
    and os: "\<And>x. onStack_of st' x \<longleftrightarrow> onStack_of st x \<and> x \<notin> set (v # rest)"
    by blast
  have co: "components st' = components st \<union> set (v # rest)"
    by (auto simp: components_def sc)
  have bad': "bad st'" if b: "bad st"
  proof -
    from b consider (comp) cc where "cc \<in> set (sccs st)" "2 \<le> length cc"
      | (stk) x where "x \<in> set (stack st)" "lowlink_of st x < index_of st x"
      unfolding bad_def by blast
    then show ?thesis
    proof cases
      case comp
      then show ?thesis unfolding bad_def sc by auto
    next
      case stk
      from stk(1) st consider "x \<in> set s0" | "x = v" | "x \<in> set rest" by auto
      then show ?thesis
      proof cases
        case 1
        with stk(2) show ?thesis unfolding bad_def st' by (auto simp: ix ll)
      next
        case 2
        with stk(2) root show ?thesis by simp
      next
        case 3
        then have "rest \<noteq> []" by auto
        then have "2 \<le> length (rev rest @ [v])" by (cases rest) simp_all
        then show ?thesis unfolding bad_def sc by auto
      qed
    qed
  qed
  have "graph_ok K G st'" using g by (simp add: graph_ok_def ke im)
  moreover have "inv_struct st'"
    unfolding inv_struct_def co
  proof (intro conjI allI impI ballI)
    show "0 < next_index st'" using inv_structD(1) [OF s] by (simp add: ni)
    show "index_of st' x < next_index st'" for x
      using inv_structD(2) [OF s, of x] by (simp add: ni ix)
    show "x = y" if "index_of st' x = index_of st' y \<and> index_of st' x \<noteq> 0" for x y
      using that inv_structD(3) [OF s, of x y] by (simp add: ix)
    show "distinct (stack st')" using inv_structD(4) [OF s] by (simp add: st st')
    show "onStack_of st' x \<longleftrightarrow> x \<in> set (stack st')" for x
      unfolding os st' using inv_structD(5) [OF s, of x] ord(4,6) by (auto simp: st)
    show "index_of st' x \<noteq> 0" if "x \<in> set (stack st')" for x
      using that inv_structD(6) [OF s, of x] by (simp add: ix st st')
    show "sorted_wrt (\<lambda>a b. index_of st' a < index_of st' b) (stack st')"
      using inv_structD(7) [OF s] by (simp add: ix st st' sorted_wrt_append)
    show "x \<in> components st \<union> set (v # rest)"
      if "index_of st' x \<noteq> 0 \<and> x \<notin> set (stack st')" for x
      using that inv_structD(8) [OF s, of x] by (auto simp: ix st st')
    show "index_of st' x \<noteq> 0" "x \<notin> set (stack st')" if "x \<in> components st \<union> set (v # rest)" for x
      using that inv_structD(9) [OF s, of x] inv_structD(6) [OF s, of x] ord(4,6)
      by (auto simp: ix st st')
  qed
  moreover have "inv_low ?E st'"
    unfolding inv_low_def
  proof (intro ballI)
    fix x assume "x \<in> set (stack st')"
    then have x: "x \<in> set s0" by (simp add: st')
    with lo st obtain t where t: "lowlink_of st x \<le> index_of st x" "t \<in> set (stack st)"
      "index_of st t = lowlink_of st x" "(x, t) \<in> ?E\<^sup>*"
      unfolding inv_low_def by auto
    have "t \<notin> set (v # rest)"
      using ord(1) [OF x] ord(3) [OF x, of t] t(1,3) by auto
    with t(2) st have "t \<in> set s0" by auto
    with t show "lowlink_of st' x \<le> index_of st' x \<and>
        (\<exists>t \<in> set (stack st'). index_of st' t = lowlink_of st' x \<and> (x, t) \<in> ?E\<^sup>*)"
      by (auto simp: ix ll st')
  qed
  moreover have "inv_sound ?E R st'"
  proof -
    have d: "distinct (rev rest @ [v])" using inv_structD(4) [OF s] by (simp add: st)
    have r1: "(v, x) \<in> ?E\<^sup>*" if "x \<in> set (v # rest)" for x
      using that ls by (auto simp: loop_state_def)
    have r2: "(x, v) \<in> ?E\<^sup>*" if "x \<in> set (v # rest)" for x
      using s lo ls root that by (rule chain_to_root)
    have "(x, y) \<in> ?E\<^sup>*" if "x \<in> set (rev rest @ [v])" "y \<in> set (rev rest @ [v])" for x y
    proof -
      from that have "x \<in> set (v # rest)" "y \<in> set (v # rest)" by auto
      from r2 [OF this(1)] r1 [OF this(2)] show ?thesis by (rule rtrancl_trans)
    qed
    with d so show ?thesis
      unfolding inv_sound_def sc by (auto simp: ix)
  qed
  moreover have "inv_compl ?E st'"
  proof (cases "bad st")
    case True
    with bad' show ?thesis by (simp add: inv_compl_def)
  next
    case False
    with c have tp: "topo ?E (sccs st)" by (simp add: inv_compl_def)
    from False fin have sub: "set (G v) \<subseteq> components st" by simp
    have "rest = []"
    proof (rule ccontr)
      assume "rest \<noteq> []"
      then obtain x where x: "x \<in> set rest" by (cases rest) auto
      with ls have "lowlink_of st x < index_of st x" by (simp add: loop_state_def)
      moreover from x st have "x \<in> set (stack st)" by simp
      ultimately have "bad st" unfolding bad_def by blast
      with False show False by simp
    qed
    moreover have "\<exists>j < length (sccs st). y \<in> set (sccs st ! j)"
      if "x \<in> set (rev [] @ [v])" "(x, y) \<in> ?E" for x y
    proof -
      from that have "y \<in> set (G v)" by (simp add: edges_def)
      with sub have "y \<in> components st" by blast
      then show ?thesis by (rule in_components_nth)
    qed
    ultimately have "topo ?E (sccs st')"
      unfolding sc using topo_snoc [OF tp, of "rev [] @ [v]"] by blast
    then show ?thesis by (simp add: inv_compl_def)
  qed
  ultimately have "Inv K G R st'" by (simp add: Inv_def)
  with p st' sc ni ix ll bad' show ?thesis by blast
qed

lemma components_mono: "sccs st' = sccs st @ new \<Longrightarrow> components st \<subseteq> components st'"
  by (auto simp: components_def)

lemma loop_rel_components:
  "loop_rel E v st st' \<Longrightarrow> x \<in> components st \<Longrightarrow> x \<in> components st'"
  using components_mono by (auto simp: loop_rel_def)

lemma grows_compose:
  assumes "grows E v st st1" "loop_rel E v st1 st2" "index_of st v = 0"
  shows "grows E v st st2"
  unfolding grows_def
proof (intro conjI allI impI)
  show "next_index st \<le> next_index st2"
    using assms(1,2) by (auto simp: grows_def loop_rel_def)
  show "\<exists>new. sccs st2 = sccs st @ new"
    using assms(1,2) by (auto simp: grows_def loop_rel_def)
  show "bad st2" if "bad st" using that assms(1,2) by (auto simp: grows_def loop_rel_def)
  show "index_of st2 x = index_of st x" "lowlink_of st2 x = lowlink_of st x"
    if x: "index_of st x \<noteq> 0" for x
  proof -
    from x assms(3) have "x \<noteq> v" by auto
    moreover from x assms(1) have "index_of st1 x = index_of st x" "lowlink_of st1 x = lowlink_of st x"
      by (simp_all add: grows_def)
    ultimately show "index_of st2 x = index_of st x" "lowlink_of st2 x = lowlink_of st x"
      using x assms(2) by (simp_all add: loop_rel_def)
  qed
  fix x assume x: "index_of st x = 0 \<and> index_of st2 x \<noteq> 0"
  have n: "next_index st \<le> next_index st1" using assms(1) by (simp add: grows_def)
  have "(v, x) \<in> E\<^sup>* \<and> next_index st \<le> index_of st2 x"
  proof (cases "index_of st1 x = 0")
    case True
    with x assms(2) have "(v, x) \<in> E\<^sup>*" "next_index st1 \<le> index_of st2 x"
      by (auto simp: loop_rel_def)
    with n show ?thesis by simp
  next
    case False
    with x assms(1) have "(v, x) \<in> E\<^sup>*" "next_index st \<le> index_of st1 x"
      by (auto simp: grows_def)
    moreover from False assms(2) have "index_of st2 x = index_of st1 x" by (simp add: loop_rel_def)
    ultimately show ?thesis by simp
  qed
  then show "(v, x) \<in> E\<^sup>*" "next_index st \<le> index_of st2 x" by simp_all
qed

lemma grows_same:
  assumes "grows E v st st2" "next_index st' = next_index st2"
    "\<And>x. index_of st' x = index_of st2 x" "\<And>x. lowlink_of st' x = lowlink_of st2 x"
    "sccs st' = sccs st2 @ new" "bad st2 \<longrightarrow> bad st'"
  shows "grows E v st st'"
  using assms unfolding grows_def by auto

lemma loop_stateD:
  assumes "loop_state E v s0 rest st"
  shows "stack st = s0 @ v # rest"
    and "x \<in> set rest \<Longrightarrow> lowlink_of st x < index_of st x"
    and "x \<in> set rest \<Longrightarrow> lowlink_of st v \<le> lowlink_of st x"
    and "x \<in> set rest \<Longrightarrow> (v, x) \<in> E\<^sup>*"
  using assms by (simp_all add: loop_state_def)

lemma InvD:
  assumes "Inv K G R st"
  shows "graph_ok K G st" "inv_struct st" "inv_low (edges K G) st"
    "inv_sound (edges K G) R st" "inv_compl (edges K G) st"
  using assms by (simp_all add: Inv_def)

lemma inv_lowD:
  assumes "inv_low E st" "x \<in> set (stack st)"
  shows "lowlink_of st x \<le> index_of st x"
    and "\<exists>t \<in> set (stack st). index_of st t = lowlink_of st x \<and> (x, t) \<in> E\<^sup>*"
  using assms by (auto simp: inv_low_def)

lemma visit_old:
  assumes I: "Inv K G R st" and ls: "loop_state (edges K G) v s0 rest st"
    and vK: "v \<in> K" and w: "w \<in> set (G v)" and vis: "index_of st w \<noteq> 0" and ne: "w \<noteq> v"
  defines "st1 \<equiv> (if onStack_of st w \<and> index_of st w < lowlink_of st v
                   then set_lowlink v (index_of st w) st else st)"
  shows "Inv K G R st1 \<and> loop_state (edges K G) v s0 rest st1 \<and>
        loop_rel (edges K G) v st st1 \<and> (bad st1 \<or> w \<in> components st1)"
proof -
  let ?E = "edges K G"
  note s = InvD(2) [OF I] and lo = InvD(3) [OF I]
  note st = loop_stateD(1) [OF ls]
  note ord = stack_order [OF s st]
  have vs: "v \<in> set (stack st)" by (simp add: st)
  have k: "v \<in> keys_of st" using inv_structD(6) [OF s vs] by (rule visited_in_keys)
  have e: "(v, w) \<in> ?E" using vK w by (simp add: edges_def)
  note lv = inv_lowD(1) [OF lo vs]
  show ?thesis
  proof (cases "onStack_of st w \<and> index_of st w < lowlink_of st v")
    case True
    then have ws: "w \<in> set (stack st)" and lt: "index_of st w < lowlink_of st v"
      using inv_structD(5) [OF s, of w] by simp_all
    have st1: "st1 = set_lowlink v (index_of st w) st"
      unfolding st1_def using True by (rule if_P)
    have 1: "Inv K G R st1"
      unfolding st1 by (rule Inv_set_lowlink [OF I vs _ ws refl]) (use lt e in auto)
    have 2: "loop_state ?E v s0 rest st1"
      unfolding loop_state_def st1
      using ls ord(5) lt by (auto simp: loop_state_def lowlink_of_set_lowlink [OF k])
    have 3: "loop_rel ?E v st st1"
      unfolding st1 using k by (rule loop_rel_set_lowlink) (use lt in simp)
    have "lowlink_of st1 v < index_of st1 v"
      unfolding st1 using lt lv by (simp add: lowlink_of_set_lowlink [OF k])
    moreover have "v \<in> set (stack st1)" using vs by (simp add: st1)
    ultimately have 4: "bad st1" unfolding bad_def by blast
    from 1 2 3 4 show ?thesis by simp
  next
    case False
    have st1: "st1 = st" unfolding st1_def using False by (rule if_not_P)
    have "bad st \<or> w \<in> components st"
    proof (cases "w \<in> set (stack st)")
      case nin: False
      with vis inv_structD(8) [OF s] show ?thesis by blast
    next
      case True
      with False inv_structD(5) [OF s, of w] have ge: "lowlink_of st v \<le> index_of st w" by simp
      from True st ne consider "w \<in> set s0" | "w \<in> set rest" by auto
      then have "bad st"
      proof cases
        case 1
        from ord(1) [OF 1] ge have "lowlink_of st v < index_of st v" by simp
        with vs show ?thesis unfolding bad_def by blast
      next
        case 2
        from loop_stateD(2) [OF ls 2] True show ?thesis unfolding bad_def by blast
      qed
      then show ?thesis by simp
    qed
    with I ls show ?thesis
      by (simp add: st1 loop_rel_refl)
  qed
qed


lemma post_scD:
  assumes "post_sc K G R v st st'"
  shows "Inv K G R st'" "grows (edges K G) v st st'" "index_of st' v \<noteq> 0"
    "stack st' = stack st \<and> lowlink_of st' v = index_of st' v \<or>
      (\<exists>rest. stack st' = stack st @ v # rest \<and>
         (\<forall>x \<in> set (v # rest). lowlink_of st' x < index_of st' x
            \<and> lowlink_of st' v \<le> lowlink_of st' x))"
  using assms by (simp_all add: post_sc_def)

lemma growsD:
  assumes "grows E v st st'"
  shows "next_index st \<le> next_index st'"
    and "index_of st x \<noteq> 0 \<Longrightarrow> index_of st' x = index_of st x"
    and "index_of st x \<noteq> 0 \<Longrightarrow> lowlink_of st' x = lowlink_of st x"
    and "index_of st x = 0 \<Longrightarrow> index_of st' x \<noteq> 0 \<Longrightarrow> (v, x) \<in> E\<^sup>*"
    and "index_of st x = 0 \<Longrightarrow> index_of st' x \<noteq> 0 \<Longrightarrow> next_index st \<le> index_of st' x"
    and "\<exists>new. sccs st' = sccs st @ new"
    and "bad st \<Longrightarrow> bad st'"
  using assms by (simp_all add: grows_def)

lemma visit_new:
  assumes I: "Inv K G R st" and ls: "loop_state (edges K G) v s0 rest st"
    and vK: "v \<in> K" and w: "w \<in> set (G v)" and unv: "index_of st w = 0"
    and post: "post_sc K G R w st st1"
  defines "st1' \<equiv> (if lowlink_of st1 w < lowlink_of st1 v
                    then set_lowlink v (lowlink_of st1 w) st1 else st1)"
  shows "Inv K G R st1' \<and> (\<exists>rest'. loop_state (edges K G) v s0 rest' st1') \<and>
        loop_rel (edges K G) v st st1' \<and> (bad st1' \<or> w \<in> components st1')"
proof -
  let ?E = "edges K G"
  note s = InvD(2) [OF I] and lo = InvD(3) [OF I]
  note I1 = post_scD(1) [OF post] and gr = post_scD(2) [OF post] and wv = post_scD(3) [OF post]
  note s1 = InvD(2) [OF I1] and lo1 = InvD(3) [OF I1]
  note st = loop_stateD(1) [OF ls]
  have vs: "v \<in> set (stack st)" by (simp add: st)
  note vvis = inv_structD(6) [OF s vs]
  have e: "(v, w) \<in> ?E" using vK w by (simp add: edges_def)
  then have e': "(v, w) \<in> ?E\<^sup>*" by blast
  have lr0: "loop_rel ?E v st st1" using gr e' vvis by (rule grows_loop_rel)
  have old: "index_of st1 x = index_of st x" "lowlink_of st1 x = lowlink_of st x"
    if "x \<in> set (stack st)" for x
    using growsD(2,3) [OF gr inv_structD(6) [OF s that]] by simp_all
  have lv1: "lowlink_of st1 v = lowlink_of st v" using old(2) [OF vs] .
  have wns: "w \<notin> set (stack st)" using inv_structD(6) [OF s, of w] unv by blast
  from post_scD(4) [OF post] show ?thesis
  proof
    assume a: "stack st1 = stack st \<and> lowlink_of st1 w = index_of st1 w"
    have "next_index st \<le> index_of st1 w" using gr unv wv by (rule growsD(5))
    moreover have "lowlink_of st v \<le> index_of st v" using lo vs by (rule inv_lowD(1))
    moreover have "index_of st v < next_index st" using s by (rule inv_structD(2))
    ultimately have "\<not> lowlink_of st1 w < lowlink_of st1 v" using a lv1 by simp
    then have st1': "st1' = st1" unfolding st1'_def by (rule if_not_P)
    have "loop_state ?E v s0 rest st1"
      unfolding loop_state_def
    proof (intro conjI ballI)
      show "stack st1 = s0 @ v # rest" using a st by simp
      fix x assume x: "x \<in> set rest"
      then have xs: "x \<in> set (stack st)" by (simp add: st)
      show "lowlink_of st1 x < index_of st1 x" "lowlink_of st1 v \<le> lowlink_of st1 x"
        "(v, x) \<in> ?E\<^sup>*"
        using loop_stateD(2,3,4) [OF ls x] by (simp_all add: old [OF xs] lv1)
    qed
    moreover have "w \<in> components st1"
      using s1 wv by (rule inv_structD(8)) (use a wns in simp)
    ultimately show ?thesis using I1 lr0 unfolding st1' by blast
  next
    assume "\<exists>rw. stack st1 = stack st @ w # rw \<and>
         (\<forall>x \<in> set (w # rw). lowlink_of st1 x < index_of st1 x
            \<and> lowlink_of st1 w \<le> lowlink_of st1 x)"
    then obtain rw where sk1: "stack st1 = stack st @ w # rw"
      and rwf: "\<And>x. x \<in> set (w # rw) \<Longrightarrow> lowlink_of st1 x < index_of st1 x"
        "\<And>x. x \<in> set (w # rw) \<Longrightarrow> lowlink_of st1 w \<le> lowlink_of st1 x"
      by blast
    have st1: "stack st1 = s0 @ v # (rest @ w # rw)" by (simp add: sk1 st)
    note ord1 = stack_order [OF s1 st1]
    have vs1: "v \<in> set (stack st1)" by (simp add: st1)
    have ws1: "w \<in> set (stack st1)" by (simp add: st1)
    have k1: "v \<in> keys_of st1" using inv_structD(6) [OF s1 vs1] by (rule visited_in_keys)
    have bad1: "bad st1" unfolding bad_def using rwf(1) [of w] ws1 by auto
    have new: "(v, x) \<in> ?E\<^sup>*" if x: "x \<in> set (w # rw)" for x
    proof -
      from x have xs1: "x \<in> set (stack st1)" by (auto simp: sk1)
      have "index_of st x = 0"
      proof (rule ccontr)
        assume v0: "index_of st x \<noteq> 0"
        have "x \<notin> set (stack st)"
          using inv_structD(4) [OF s1] x unfolding sk1 by auto
        with v0 have "x \<in> components st" using inv_structD(8) [OF s] by blast
        moreover from growsD(6) [OF gr] have "components st \<subseteq> components st1"
          using components_mono by blast
        ultimately have "x \<in> components st1" by blast
        with inv_structD(9) [OF s1] xs1 show False by blast
      qed
      then have "(w, x) \<in> ?E\<^sup>*" using inv_structD(6) [OF s1 xs1] growsD(4) [OF gr] by blast
      with e show ?thesis by (rule converse_rtrancl_into_rtrancl)
    qed
    have base: "lowlink_of st1 x < index_of st1 x \<and> (v, x) \<in> ?E\<^sup>*
        \<and> (x \<in> set rest \<longrightarrow> lowlink_of st1 v \<le> lowlink_of st1 x)
        \<and> (x \<notin> set rest \<longrightarrow> lowlink_of st1 w \<le> lowlink_of st1 x) \<and> x \<noteq> v"
      if x: "x \<in> set (rest @ w # rw)" for x
    proof (cases "x \<in> set rest")
      case True
      then have xs: "x \<in> set (stack st)" by (simp add: st)
      from loop_stateD(2,3,4) [OF ls True] ord1(5) x True show ?thesis
        by (auto simp: old [OF xs] lv1)
    next
      case False
      with x have "x \<in> set (w # rw)" by auto
      from rwf [OF this] new [OF this] False ord1(5) x show ?thesis by auto
    qed
    show ?thesis
    proof (cases "lowlink_of st1 w < lowlink_of st1 v")
      case True
      then have st1': "st1' = set_lowlink v (lowlink_of st1 w) st1"
        unfolding st1'_def by (rule if_P)
      from inv_lowD(2) [OF lo1 ws1] obtain t where
        t: "t \<in> set (stack st1)" "index_of st1 t = lowlink_of st1 w" "(w, t) \<in> ?E\<^sup>*"
        by blast
      from e t(3) have vt: "(v, t) \<in> ?E\<^sup>*" by (rule converse_rtrancl_into_rtrancl)
      have le: "lowlink_of st1 w \<le> lowlink_of st1 v" using True by simp
      have 1: "Inv K G R st1'"
        unfolding st1' using I1 vs1 le t(1,2) vt by (rule Inv_set_lowlink)
      have 2: "loop_state ?E v s0 (rest @ w # rw) st1'"
        unfolding loop_state_def st1'
      proof (intro conjI ballI)
        show "stack (set_lowlink v (lowlink_of st1 w) st1) = s0 @ v # (rest @ w # rw)"
          using st1 by simp
        fix x assume x: "x \<in> set (rest @ w # rw)"
        note b = base [OF x]
        show "lowlink_of (set_lowlink v (lowlink_of st1 w) st1) x
            < index_of (set_lowlink v (lowlink_of st1 w) st1) x"
          using b by (simp add: lowlink_of_set_lowlink [OF k1])
        show "(v, x) \<in> ?E\<^sup>*" using b by simp
        show "lowlink_of (set_lowlink v (lowlink_of st1 w) st1) v
            \<le> lowlink_of (set_lowlink v (lowlink_of st1 w) st1) x"
          using b le by (cases "x \<in> set rest") (auto simp: lowlink_of_set_lowlink [OF k1])
      qed
      have 3: "loop_rel ?E v st st1'"
        unfolding st1' using lr0 loop_rel_set_lowlink [OF k1 le] by (rule loop_rel_trans)
      have 4: "bad st1'" unfolding st1' using bad1 k1 le by (rule bad_set_lowlink)
      from 1 2 3 4 show ?thesis by blast
    next
      case False
      then have st1': "st1' = st1" unfolding st1'_def by (rule if_not_P)
      have "loop_state ?E v s0 (rest @ w # rw) st1"
        unfolding loop_state_def
      proof (intro conjI ballI)
        show "stack st1 = s0 @ v # (rest @ w # rw)" by (rule st1)
        fix x assume x: "x \<in> set (rest @ w # rw)"
        note b = base [OF x]
        show "lowlink_of st1 x < index_of st1 x" "(v, x) \<in> ?E\<^sup>*" using b by simp_all
        show "lowlink_of st1 v \<le> lowlink_of st1 x"
          using b False by (cases "x \<in> set rest") auto
      qed
      with I1 lr0 bad1 show ?thesis unfolding st1' by blast
    qed
  qed
qed


lemma post_loop_step:
  assumes "loop_rel (edges K G) v st st1" "bad st1 \<or> w \<in> components st1"
    "post_loop K G R v s0 ws st1 st'"
  shows "post_loop K G R v s0 (w # ws) st st'"
proof -
  from assms(3) have I: "Inv K G R st'" and ls: "\<exists>rest'. loop_state (edges K G) v s0 rest' st'"
    and lr: "loop_rel (edges K G) v st1 st'" and f: "bad st' \<or> set ws \<subseteq> components st'"
    by (simp_all add: post_loop_def)
  have "loop_rel (edges K G) v st st'" using assms(1) lr by (rule loop_rel_trans)
  moreover have "bad st' \<or> set (w # ws) \<subseteq> components st'"
  proof (cases "bad st1")
    case True
    with lr show ?thesis by (simp add: loop_rel_def)
  next
    case False
    with assms(2) have "w \<in> components st1" by simp
    with lr have "w \<in> components st'" by (rule loop_rel_components)
    with f show ?thesis by auto
  qed
  ultimately show ?thesis using I ls by (simp add: post_loop_def)
qed

lemma closed_graphD:
  assumes "closed_graph K G" "v \<in> K" "w \<in> set (G v)"
  shows "w \<in> K" "w \<noteq> v" "(v, w) \<in> edges K G"
  using assms by (auto simp: closed_graph_def edges_def)

lemma graph_okD:
  assumes "graph_ok K G st" "v \<in> K"
  shows "v \<in> keys_of st" "imports_of (pkgs st) v = Inr (G v)"
  using assms by (auto simp: graph_ok_def)

lemma traverse:
  "Inv K G R st \<Longrightarrow> closed_graph K G \<Longrightarrow> v \<in> K \<Longrightarrow> index_of st v = 0 \<Longrightarrow>
     v \<in> (edges K G)\<^sup>* `` R \<Longrightarrow> card (unvisited st) \<le> n \<Longrightarrow>
     \<exists>st'. strongConnect n v st = Some (Inr st') \<and> post_sc K G R v st st'"
  "Inv K G R st \<Longrightarrow> closed_graph K G \<Longrightarrow> v \<in> K \<Longrightarrow>
     v \<in> (edges K G)\<^sup>* `` R \<Longrightarrow> set ws \<subseteq> set (G v) \<Longrightarrow> card (unvisited st) \<le> n \<Longrightarrow>
     (\<forall>s0 rest. loop_state (edges K G) v s0 rest st \<longrightarrow>
        (\<exists>st'. visit_successors n v ws st = Some (Inr st') \<and> post_loop K G R v s0 ws st st'))"
proof (induction n v st and n v ws st rule: strongConnect_visit_successors.induct)
  case (1 v st)
  from graph_okD(1) [OF InvD(1) [OF "1.prems"(1)] "1.prems"(3)] "1.prems"(4)
  have "v \<in> unvisited st" by (simp add: unvisited_def)
  moreover have "finite (unvisited st)" by (simp add: unvisited_def finite_keys)
  ultimately have "card (unvisited st) \<noteq> 0" by auto
  with 1 show ?case by simp
next
  case (2 n v st)
  let ?E = "edges K G"
  let ?st1 = "enter v st"
  note I = "2.prems"(1) and cg = "2.prems"(2) and vK = "2.prems"(3) and unv = "2.prems"(4)
    and reach = "2.prems"(5) and card = "2.prems"(6)
  note k = graph_okD(1) [OF InvD(1) [OF I] vK]
  note s = InvD(2) [OF I]
  note en = Inv_enter [OF I vK unv reach]
  have imp: "imports_of (pkgs ?st1) v = Inr (G v)"
    using graph_okD(2) [OF InvD(1) [OF I] vK] by simp
  have c1: "card (unvisited ?st1) \<le> n"
    using k unv inv_structD(1) [OF s] card by (rule unvisited_enter)
  from "2.IH" [OF refl imp en(1) cg vK reach subset_refl c1] en(2)
  obtain st2 where r: "visit_successors n v (G v) ?st1 = Some (Inr st2)"
    and pl: "post_loop K G R v (stack st) (G v) ?st1 st2"
    by blast
  from pl have I2: "Inv K G R st2" and lr: "loop_rel ?E v ?st1 st2"
    and fin: "bad st2 \<or> set (G v) \<subseteq> components st2"
    by (simp_all add: post_loop_def)
  from pl obtain rest' where ls2: "loop_state ?E v (stack st) rest' st2"
    by (auto simp: post_loop_def)
  have g2: "grows ?E v st st2" using en(3) lr unv by (rule grows_compose)
  have "index_of ?st1 v \<noteq> 0" using en(4) inv_structD(1) [OF s] by simp
  with lr have i2: "index_of st2 v \<noteq> 0" by (simp add: loop_rel_def)
  have eq: "strongConnect (Suc n) v st
      = (if lowlink_of st2 v = index_of st2 v then Some (pop_scc v st2) else Some (Inr st2))"
    using imp r by (simp add: Let_def)
  show ?case
  proof (cases "lowlink_of st2 v = index_of st2 v")
    case True
    from Inv_pop [OF I2 ls2 True vK fin] obtain st' where
      p: "pop_scc v st2 = Inr st'" and I': "Inv K G R st'" and sk: "stack st' = stack st"
      and sc: "sccs st' = sccs st2 @ [rev rest' @ [v]]"
      and ni: "next_index st' = next_index st2"
      and ix: "\<And>x. index_of st' x = index_of st2 x"
      and ll: "\<And>x. lowlink_of st' x = lowlink_of st2 x"
      and bd: "bad st2 \<longrightarrow> bad st'"
      by blast
    have "grows ?E v st st'" using g2 ni ix ll sc bd by (rule grows_same)
    with I' sk i2 True have "post_sc K G R v st st'"
      by (simp add: post_sc_def ix ll)
    with eq True p show ?thesis by simp
  next
    case False
    note st2 = loop_stateD(1) [OF ls2]
    have vs2: "v \<in> set (stack st2)" by (simp add: st2)
    from inv_lowD(1) [OF InvD(3) [OF I2] vs2] False
    have lt: "lowlink_of st2 v < index_of st2 v" by simp
    have "\<forall>x \<in> set (v # rest'). lowlink_of st2 x < index_of st2 x
            \<and> lowlink_of st2 v \<le> lowlink_of st2 x"
      using lt loop_stateD(2,3) [OF ls2] by auto
    with st2 have "\<exists>rest. stack st2 = stack st @ v # rest \<and>
         (\<forall>x \<in> set (v # rest). lowlink_of st2 x < index_of st2 x
            \<and> lowlink_of st2 v \<le> lowlink_of st2 x)"
      by blast
    with I2 g2 i2 have "post_sc K G R v st st2" by (simp add: post_sc_def)
    with eq False show ?thesis by simp
  qed
next
  case (3 n v st)
  show ?case
    using "3.prems"(1) by (auto simp: post_loop_def loop_rel_refl)
next
  case (4 n v wName rest_ws st)
  let ?E = "edges K G"
  note I = "4.prems"(1) and cg = "4.prems"(2) and vK = "4.prems"(3)
    and reach = "4.prems"(4) and card = "4.prems"(6)
  from "4.prems"(5) have wG: "wName \<in> set (G v)" and sub: "set rest_ws \<subseteq> set (G v)"
    by simp_all
  note cw = closed_graphD [OF cg vK wG]
  note s = InvD(2) [OF I]
  note wk = graph_okD(1) [OF InvD(1) [OF I] cw(1)]
  then obtain pkg where Some: "map_of (pkgs st) wName = Some pkg"
    by (auto simp: in_keys_iff)
  note w = index_of_map_of [OF Some]
  have reach_w: "wName \<in> ?E\<^sup>* `` R"
    using reach cw(3) by (auto intro: rtrancl_into_rtrancl)
  show ?case
  proof (intro allI impI)
    fix s0 rest
    assume ls: "loop_state ?E v s0 rest st"
    show "\<exists>st'. visit_successors n v (wName # rest_ws) st = Some (Inr st') \<and>
        post_loop K G R v s0 (wName # rest_ws) st st'"
    proof (cases "index pkg = 0")
      case True
      then have unv: "index_of st wName = 0" by (simp add: w(1))
      from "4.IH"(1) [OF Some True I cg cw(1) unv reach_w card]
      obtain st1 where r1: "strongConnect n wName st = Some (Inr st1)"
        and post: "post_sc K G R wName st st1"
        by blast
      let ?st1' = "if lowlink_of st1 wName < lowlink_of st1 v
               then set_lowlink v (lowlink_of st1 wName) st1 else st1"
      note vn = visit_new [OF I ls vK wG unv post]
      from vn have I1: "Inv K G R ?st1'" by (rule conjunct1)
      from vn have lr: "loop_rel ?E v st ?st1'" by (elim conjE)
      from vn have bw: "bad ?st1' \<or> wName \<in> components ?st1'" by (elim conjE)
      from vn have "\<exists>rest'. loop_state ?E v s0 rest' ?st1'" by (elim conjE)
      then obtain rest' where ls': "loop_state ?E v s0 rest' ?st1'" ..
      from basic(1) [OF inv_structD(1) [OF s] wk unv card] r1
      have m1: "mono st st1" by simp
      have m1': "mono st1 ?st1'" by (simp add: mono_set_lowlink mono_refl)
      have c1: "card (unvisited ?st1') \<le> n"
        using mono_unvisited [OF mono_trans [OF m1 m1']] card by simp
      from "4.IH"(2) [OF Some True r1 refl I1 cg vK reach sub c1] ls'
      obtain st' where r2: "visit_successors n v rest_ws ?st1' = Some (Inr st')"
        and pl: "post_loop K G R v s0 rest_ws ?st1' st'"
        by blast
      from lr bw pl have "post_loop K G R v s0 (wName # rest_ws) st st'"
        by (rule post_loop_step)
      moreover have "visit_successors n v (wName # rest_ws) st = Some (Inr st')"
        using Some True r1 r2 by simp
      ultimately show ?thesis by blast
    next
      case False
      then have vis: "index_of st wName \<noteq> 0" by (simp add: w(1))
      let ?st1' = "if onStack pkg \<and> index pkg < lowlink_of st v
                   then set_lowlink v (index pkg) st else st"
      note vo = visit_old [OF I ls vK wG vis cw(2), unfolded w(1) w(2)]
      from vo have I1: "Inv K G R ?st1'" by (rule conjunct1)
      from vo have ls': "loop_state ?E v s0 rest ?st1'" by (elim conjE)
      from vo have lr: "loop_rel ?E v st ?st1'" by (elim conjE)
      from vo have bw: "bad ?st1' \<or> wName \<in> components ?st1'" by (elim conjE)
      have m1: "mono st ?st1'" by (simp add: mono_set_lowlink mono_refl)
      have c1: "card (unvisited ?st1') \<le> n"
        using mono_unvisited [OF m1] card by simp
      from "4.IH"(3) [OF Some False I1 cg vK reach sub c1] ls'
      obtain st' where r2: "visit_successors n v rest_ws ?st1' = Some (Inr st')"
        and pl: "post_loop K G R v s0 rest_ws ?st1' st'"
        by blast
      from lr bw pl have "post_loop K G R v s0 (wName # rest_ws) st st'"
        by (rule post_loop_step)
      moreover have "visit_successors n v (wName # rest_ws) st = Some (Inr st')"
        using Some False r2 by simp
      ultimately show ?thesis by blast
    qed
  qed
qed

lemma root_popped:
  assumes "post_sc K G R r st st1" "stack st = []"
  shows "stack st1 = []"
proof -
  note I1 = post_scD(1) [OF assms(1)]
  note s1 = InvD(2) [OF I1] and lo1 = InvD(3) [OF I1]
  from post_scD(4) [OF assms(1)] show ?thesis
  proof
    assume "stack st1 = stack st \<and> lowlink_of st1 r = index_of st1 r"
    with assms(2) show ?thesis by simp
  next
    assume "\<exists>rest. stack st1 = stack st @ r # rest \<and>
         (\<forall>x \<in> set (r # rest). lowlink_of st1 x < index_of st1 x
            \<and> lowlink_of st1 r \<le> lowlink_of st1 x)"
    then obtain rest where sk: "stack st1 = [] @ r # rest"
      and lt: "lowlink_of st1 r < index_of st1 r"
      using assms(2) by auto
    have rs: "r \<in> set (stack st1)" by (simp add: sk)
    from inv_lowD(2) [OF lo1 rs] obtain t where
      t: "t \<in> set (stack st1)" "index_of st1 t = lowlink_of st1 r" by blast
    from t(1) sk consider "t = r" | "t \<in> set rest" by auto
    then have False
    proof cases
      case 1
      with t(2) lt show False by simp
    next
      case 2
      from stack_order(2) [OF s1 sk 2] t(2) lt show False by simp
    qed
    then show ?thesis ..
  qed
qed

lemma roots_loop:
  assumes cg: "closed_graph K G" and RK: "R \<subseteq> K"
  shows "Inv K G R st \<Longrightarrow> set names \<subseteq> R \<Longrightarrow> stack st = [] \<Longrightarrow> card (unvisited st) \<le> n \<Longrightarrow>
     \<exists>st'. tarjan_loop n names st = Some (Inr st') \<and> Inv K G R st' \<and> stack st' = []"
proof (induction names arbitrary: st)
  case Nil
  then show ?case by simp
next
  case (Cons name rest)
  note I = Cons.prems(1)
  from Cons.prems(2) have nR: "name \<in> R" and sub: "set rest \<subseteq> R" by simp_all
  from nR RK have nK: "name \<in> K" by blast
  note k = graph_okD(1) [OF InvD(1) [OF I] nK]
  then obtain pkg where Some: "map_of (pkgs st) name = Some pkg" by (auto simp: in_keys_iff)
  note w = index_of_map_of [OF Some]
  show ?case
  proof (cases "index pkg = 0")
    case False
    from Cons.IH [OF I sub Cons.prems(3,4)] Some False show ?thesis by simp
  next
    case True
    then have unv: "index_of st name = 0" by (simp add: w(1))
    have reach: "name \<in> (edges K G)\<^sup>* `` R" using nR by blast
    from traverse(1) [OF I cg nK unv reach Cons.prems(4)]
    obtain st1 where r: "strongConnect n name st = Some (Inr st1)"
      and post: "post_sc K G R name st st1" by blast
    note I1 = post_scD(1) [OF post]
    have sk: "stack st1 = []" using post Cons.prems(3) by (rule root_popped)
    from basic(1) [OF inv_structD(1) [OF InvD(2) [OF I]] k unv Cons.prems(4)] r
    have m1: "mono st st1" by simp
    have c1: "card (unvisited st1) \<le> n" using mono_unvisited [OF m1] Cons.prems(4) by simp
    from Cons.IH [OF I1 sub sk c1] Some True r show ?thesis by simp
  qed
qed

lemma start_Inv:
  assumes "fresh wr" "\<forall>v \<in> K. imports_of (allPackages wr) v = Inr (G v)"
  shows "Inv K G R (tarjan_start wr)"
proof -
  let ?st = "tarjan_start wr"
  have i0: "index_of ?st x = 0" for x using assms(1) by (rule fresh_index)
  have o0: "\<not> onStack_of ?st x" for x
    using assms(1)
    by (auto simp: fresh_def onStack_of_def tarjan_start_def list_all_iff split: option.splits
        dest!: map_of_SomeD)
  have "K \<subseteq> keys_of ?st"
  proof
    fix v assume "v \<in> K"
    with assms(2) have "imports_of (pkgs ?st) v = Inr (G v)" by (simp add: tarjan_start_facts)
    then show "v \<in> keys_of ?st"
      by (auto simp: imports_of_def in_keys_iff split: option.splits)
  qed
  then have "graph_ok K G ?st"
    using assms(2) by (simp add: graph_ok_def tarjan_start_facts)
  moreover have "inv_struct ?st"
    unfolding inv_struct_def by (simp add: i0 o0 tarjan_start_facts components_def)
  moreover have "inv_low (edges K G) ?st" by (simp add: inv_low_def tarjan_start_facts)
  moreover have "inv_sound (edges K G) R ?st"
    by (simp add: inv_sound_def i0 tarjan_start_facts)
  moreover have "inv_compl (edges K G) ?st"
    by (simp add: inv_compl_def topo_def tarjan_start_facts)
  ultimately show ?thesis by (simp add: Inv_def)
qed

lemma topo_descent:
  assumes "topo E cs" "(x, y) \<in> E\<^sup>+"
  shows "i < length cs \<Longrightarrow> x \<in> set (cs ! i) \<Longrightarrow> \<exists>j < i. y \<in> set (cs ! j)"
  using assms(2)
proof (induction rule: trancl_induct)
  case (base y)
  with assms(1) show ?case unfolding topo_def by blast
next
  case (step y z)
  from step.IH [OF step.prems] obtain j where j: "j < i" "y \<in> set (cs ! j)" by blast
  with step.prems(1) have "j < length cs" by simp
  with assms(1) j(2) step.hyps(2) obtain k where "k < j" "z \<in> set (cs ! k)"
    unfolding topo_def by blast
  with j(1) show ?case by (auto intro: less_trans)
qed

lemma topo_acyclic:
  assumes "topo E cs"
  shows "i < length cs \<Longrightarrow> x \<in> set (cs ! i) \<Longrightarrow> (x, x) \<notin> E\<^sup>+"
proof (induction i rule: less_induct)
  case (less i)
  show ?case
  proof
    assume c: "(x, x) \<in> E\<^sup>+"
    from topo_descent [OF assms c less.prems] obtain j where j: "j < i" "x \<in> set (cs ! j)"
      by blast
    with less.prems(1) have "j < length cs" by simp
    from less.IH [OF j(1) this j(2)] c show False by simp
  qed
qed


lemma import_edges_irrefl:
  assumes "keyed wr"
  shows "(x, x) \<notin> import_edges (allPackages wr)"
proof
  assume "(x, x) \<in> import_edges (allPackages wr)"
  then obtain names where n: "imports_of (allPackages wr) x = Inr names" "x \<in> set names"
    by (auto simp: import_edges_def)
  then obtain p where p: "map_of (allPackages wr) x = Some p"
    "ImportedPackageComputedNames p = Inr names"
    by (auto simp: imports_of_def split: option.splits)
  from p(1) have "(x, p) \<in> set (allPackages wr)" by (rule map_of_SomeD)
  with assms have "PkgComputedPackage p = x" by (auto simp: keyed_def list_all_iff)
  with ImportedPackageComputedNames_Inr(2) [OF p(2)] n(2) show False by simp
qed

lemma tarjan_correct:
  assumes f: "fresh wr" and ky: "keyed wr"
    and res: "\<forall>x \<in> reachable wr. \<exists>names. imports_of (allPackages wr) x = Inr names"
  shows "\<exists>cs. tarjan wr = Some (Inr cs) \<and>
     (\<forall>c \<in> set cs. distinct c \<and> c \<noteq> [] \<and> set c \<subseteq> reachable wr \<and>
        (\<forall>x \<in> set c. \<forall>y \<in> set c. (x, y) \<in> (import_edges (allPackages wr))\<^sup>*)) \<and>
     ((\<exists>c \<in> set cs. 2 \<le> length c) \<or>
      (\<forall>x \<in> reachable wr. (x, x) \<notin> (import_edges (allPackages wr))\<^sup>+))"
proof -
  let ?pk = "allPackages wr"
  let ?Ei = "import_edges ?pk"
  let ?K = "reachable wr"
  let ?R = "set (packages wr)"
  define G where "G v = (case imports_of ?pk v of Inr names \<Rightarrow> names | Inl e \<Rightarrow> [])" for v
  let ?E = "edges ?K G"
  have gK: "\<forall>v \<in> ?K. imports_of ?pk v = Inr (G v)"
    using res by (auto simp: G_def)
  have RK: "?R \<subseteq> ?K" by (auto simp: reachable_def)
  have sub: "?E \<subseteq> ?Ei" using gK by (auto simp: edges_def import_edges_def)
  then have sub': "?E\<^sup>* \<subseteq> ?Ei\<^sup>*" by (rule rtrancl_mono)
  have step: "y \<in> ?K \<and> (x, y) \<in> ?E" if "x \<in> ?K" "(x, y) \<in> ?Ei" for x y
  proof -
    from that(1) obtain r where "r \<in> ?R" "(r, x) \<in> ?Ei\<^sup>*" by (auto simp: reachable_def)
    with that(2) have "y \<in> ?K" by (auto simp: reachable_def intro: rtrancl_into_rtrancl)
    moreover from that gK have "y \<in> set (G x)" by (auto simp: import_edges_def)
    ultimately show ?thesis using that(1) by (simp add: edges_def)
  qed
  have lift: "y \<in> ?K \<and> (x, y) \<in> ?E\<^sup>*" if "(x, y) \<in> ?Ei\<^sup>*" "x \<in> ?K" for x y
    using that
  proof (induction rule: rtrancl_induct)
    case base
    then show ?case by simp
  next
    case (step y z)
    from step.IH [OF step.prems] have "y \<in> ?K" "(x, y) \<in> ?E\<^sup>*" by simp_all
    moreover from \<open>\<And>x y. x \<in> ?K \<Longrightarrow> (x, y) \<in> ?Ei \<Longrightarrow> y \<in> ?K \<and> (x, y) \<in> ?E\<close> [OF this(1) step.hyps(2)]
    have "z \<in> ?K" "(y, z) \<in> ?E" by simp_all
    ultimately show ?case by (auto intro: rtrancl_into_rtrancl)
  qed
  have cg: "closed_graph ?K G"
    unfolding closed_graph_def
  proof (intro ballI conjI subsetI)
    fix v w assume v: "v \<in> ?K" and w: "w \<in> set (G v)"
    with gK have "(v, w) \<in> ?Ei" by (auto simp: import_edges_def)
    with step [OF v] show "w \<in> ?K" by blast
  next
    fix v assume v: "v \<in> ?K"
    show "v \<notin> set (G v)"
    proof
      assume "v \<in> set (G v)"
      with gK v have "(v, v) \<in> ?Ei" by (auto simp: import_edges_def)
      with import_edges_irrefl [OF ky] show False by blast
    qed
  qed
  let ?st = "tarjan_start wr"
  let ?n = "length ?pk"
  have I0: "Inv ?K G ?R ?st" using f gK by (rule start_Inv)
  from roots_loop [OF cg RK I0, of "packagesInOrder wr" ?n]
  obtain st' where r: "tarjan_loop ?n (packagesInOrder wr) ?st = Some (Inr st')"
    and I: "Inv ?K G ?R st'" and sk: "stack st' = []"
    by (auto simp: packagesInOrder_def tarjan_start_facts)
  have t: "tarjan wr = Some (Inr (sccs st'))" using r by (simp add: tarjan_def)
  note s = InvD(2) [OF I] and so = InvD(4) [OF I] and co = InvD(5) [OF I]
  have comp: "x \<in> components st'" if "x \<in> ?K" for x
  proof -
    from settled_reachable [OF f r that] have "index_of st' x \<noteq> 0" by simp
    then show ?thesis using inv_structD(8) [OF s] sk by simp
  qed
  have sound: "distinct c \<and> c \<noteq> [] \<and> set c \<subseteq> ?K \<and>
      (\<forall>x \<in> set c. \<forall>y \<in> set c. (x, y) \<in> ?Ei\<^sup>*)" if c: "c \<in> set (sccs st')" for c
  proof -
    from so c have d: "distinct c" "c \<noteq> []" and m: "\<forall>x \<in> set c. \<forall>y \<in> set c. (x, y) \<in> ?E\<^sup>*"
      by (auto simp: inv_sound_def)
    have "set c \<subseteq> ?K"
    proof
      fix x assume "x \<in> set c"
      with c have "x \<in> components st'" by (auto simp: components_def)
      with inv_structD(9) [OF s] have "index_of st' x \<noteq> 0" by blast
      with so have "x \<in> ?E\<^sup>* `` ?R" by (simp add: inv_sound_def)
      with sub' show "x \<in> ?K" by (auto simp: reachable_def)
    qed
    with d m sub' show ?thesis by blast
  qed
  have compl: "(x, x) \<notin> ?Ei\<^sup>+" if nb: "\<not> (\<exists>c \<in> set (sccs st'). 2 \<le> length c)" and x: "x \<in> ?K" for x
  proof
    assume cyc: "(x, x) \<in> ?Ei\<^sup>+"
    from nb sk have "\<not> bad st'" by (simp add: bad_def)
    with co have tp: "topo ?E (sccs st')" by (simp add: inv_compl_def)
    from cyc obtain y where y: "(x, y) \<in> ?Ei" "(y, x) \<in> ?Ei\<^sup>*"
      by (auto dest: tranclD)
    from step [OF x y(1)] have yK: "y \<in> ?K" and e1: "(x, y) \<in> ?E" by simp_all
    from lift [OF y(2) yK] have "(y, x) \<in> ?E\<^sup>*" by simp
    with e1 have "(x, x) \<in> ?E\<^sup>+" by (rule rtrancl_into_trancl2)
    moreover from in_components_nth [OF comp [OF x]] obtain i where
      "i < length (sccs st')" "x \<in> set (sccs st' ! i)" by blast
    ultimately show False using topo_acyclic [OF tp] by blast
  qed
  from t sound compl show ?thesis by blast
qed


lemma two_distinct:
  assumes "distinct c" "2 \<le> length c"
  shows "\<exists>x \<in> set c. \<exists>y \<in> set c. y \<noteq> x"
proof -
  from assms(2) obtain a b rest where "c = a # b # rest"
    by (cases c; cases "tl c") auto
  with assms(1) show ?thesis by auto
qed



subsection \<open>Unresolved dependencies\<close>

lemma CollectPackages_fresh:
  assumes "CollectPackages visit infos = Inr pkgMap" "allPackages wr = pkgMap"
  shows "fresh wr"
  using CollectPackages_entry(4,6) [OF assms(1)] assms(2)
  by (auto simp: fresh_def list_all_iff)

lemma imports_of_Inl:
  "(\<exists>e. imports_of pk x = Inl e)
     \<longleftrightarrow> (case map_of pk x of None \<Rightarrow> True | Some pkg \<Rightarrow> None \<in> set (PkgDeps pkg))"
  by (simp add: imports_of_def ImportedPackageComputedNames_def imported_loop_closed
      split: option.splits)

lemma CollectPackages_unresolved:
  assumes "permutes visit" "CollectPackages visit infos = Inr pkgMap"
    "map_of pkgMap x = Some pkg"
  shows "None \<in> set (PkgDeps pkg)
     \<longleftrightarrow> (\<exists>(name, f) \<in> set infos. ComputedPackage f = x
            \<and> (\<exists>dep \<in> set (Deps f). map_of infos dep = None))"
proof -
  from assms(3) have m: "(x, pkg) \<in> set pkgMap" by (rule map_of_SomeD)
  note d = CollectPackages_entry_deps(2) [OF assms(1,2) m]
  note f = CollectPackages_entry(2) [OF assms(2) m]
  have "None \<in> set (PkgDeps pkg) \<longleftrightarrow> (\<exists>f \<in> set (Files pkg). \<exists>dep \<in> set (Deps f). map_of infos dep = None)"
    unfolding d by force
  also have "\<dots> \<longleftrightarrow> (\<exists>(name, f) \<in> set infos. ComputedPackage f = x
            \<and> (\<exists>dep \<in> set (Deps f). map_of infos dep = None))"
    unfolding f by force
  finally show ?thesis .
qed

lemma CollectPackages_imports:
  assumes "permutes visit" "CollectPackages visit infos = Inr pkgMap"
  shows "(\<exists>e. imports_of pkgMap x = Inl e)
     \<longleftrightarrow> x \<notin> fst ` set pkgMap \<or>
         (\<exists>(name, f) \<in> set infos. ComputedPackage f = x
            \<and> (\<exists>dep \<in> set (Deps f). map_of infos dep = None))"
proof (cases "map_of pkgMap x")
  case None
  then have "x \<notin> fst ` set pkgMap" by (simp add: map_of_eq_None_iff)
  with None show ?thesis by (simp add: imports_of_Inl)
next
  case (Some pkg)
  then have "x \<in> fst ` set pkgMap" by (metis map_of_eq_None_iff option.distinct(1))
  with Some CollectPackages_unresolved [OF assms Some] show ?thesis
    by (simp add: imports_of_Inl)
qed

text \<open>
  C7, as stated, fails. For a file that imports a name missing from \<open>infos\<close>,
  CollectPackages returns no error and stores a nil pointer in Deps of the file's package
  (the package has this one dependency, so Deps is the same in every order of the map);
  CheckCycles on that package then panics with a nil dereference: the run ends with a
  crash, not with an error reported to the caller.
\<close>

theorem unresolved_dependency_counterexample:
  "CollectPackages (\<lambda>key entries. entries)
     [(go ''a.proto'', \<lparr>Name = go ''a.proto'', FullPath = [], Package = go ''a'', GoPackage = [],
         Deps = [go ''missing.proto''], ComputedPackage = go ''.;a''\<rparr>)]
   = Inr [(go ''.;a'',
       \<lparr>PkgComputedPackage = go ''.;a'',
        Files = [\<lparr>Name = go ''a.proto'', FullPath = [], Package = go ''a'', GoPackage = [],
                  Deps = [go ''missing.proto''], ComputedPackage = go ''.;a''\<rparr>],
        PkgDeps = [None], index = 0, lowlink = 0, onStack = False\<rparr>)]
   \<and> CheckCycles
     \<lparr>Parallelism = 1, packages = [go ''.;a''],
      allPackages = [(go ''.;a'',
       \<lparr>PkgComputedPackage = go ''.;a'',
        Files = [\<lparr>Name = go ''a.proto'', FullPath = [], Package = go ''a'', GoPackage = [],
                  Deps = [go ''missing.proto''], ComputedPackage = go ''.;a''\<rparr>],
        PkgDeps = [None], index = 0, lowlink = 0, onStack = False\<rparr>)],
      initCalled = True\<rparr>
   = Some (Inl NilDereference)"
  by (simp add: CollectPackages_def go_def add_file_def modify_def new_PackageInfo_def
      set_deps_def collect_deps_def store_def CheckCycles_def tarjan_def tarjan_start_def
      packagesInOrder_def enter_def imports_of_def ImportedPackageComputedNames_def Let_def)

text \<open>
  C7 (amended). Whatever the order in which the maps are visited, CollectPackages returns
  no error; for every file with a dependency whose name is not a key of \<open>infos\<close>, Deps of
  the file's package holds a nil pointer. CheckCycles on a wrapper with these packages
  panics if and only if some package reachable from the needed packages along imports
  holds such a file (or is no key of allPackages): no error is reported to the caller, and
  since the callers run CheckCycles before Generate, the crash comes before any
  generation. Otherwise CheckCycles returns (nil or the cycles error): an unresolved
  dependency of a package that is not reachable is never read, it is silently left out.
\<close>

theorem unresolved_dependency_panics:
  assumes "permutes visit"
  shows "\<exists>pkgMap. CollectPackages visit infos = Inr pkgMap \<and>
     (\<forall>(name, f) \<in> set infos. \<forall>dep \<in> set (Deps f). map_of infos dep = None \<longrightarrow>
        (\<exists>pkg. map_of pkgMap (ComputedPackage f) = Some pkg \<and> None \<in> set (PkgDeps pkg))) \<and>
     (\<forall>wr. allPackages wr = pkgMap \<longrightarrow>
        (if \<exists>x \<in> reachable wr. x \<notin> fst ` set pkgMap \<or>
               (\<exists>(name, f) \<in> set infos. ComputedPackage f = x
                  \<and> (\<exists>dep \<in> set (Deps f). map_of infos dep = None))
         then \<exists>e. CheckCycles wr = Some (Inl e)
         else \<exists>r. CheckCycles wr = Some (Inr r)))"
proof -
  from CollectPackages_total obtain pkgMap where c: "CollectPackages visit infos = Inr pkgMap"
    by blast
  have a: "\<exists>pkg. map_of pkgMap (ComputedPackage f) = Some pkg \<and> None \<in> set (PkgDeps pkg)"
    if "(name, f) \<in> set infos" "dep \<in> set (Deps f)" "map_of infos dep = None" for name f dep
  proof -
    from that(1) have "ComputedPackage f \<in> ComputedPackage ` snd ` set infos" by force
    then have "ComputedPackage f \<in> fst ` set pkgMap" by (simp add: CollectPackages_keys(2) [OF c])
    then obtain pkg where l: "map_of pkgMap (ComputedPackage f) = Some pkg"
      by (metis map_of_eq_None_iff not_None_eq)
    from that have "None \<in> set (PkgDeps pkg)"
      unfolding CollectPackages_unresolved [OF assms c l] by blast
    with l show ?thesis by blast
  qed
  have b: "if \<exists>x \<in> reachable wr. x \<notin> fst ` set pkgMap \<or>
               (\<exists>(name, f) \<in> set infos. ComputedPackage f = x
                  \<and> (\<exists>dep \<in> set (Deps f). map_of infos dep = None))
         then \<exists>e. CheckCycles wr = Some (Inl e)
         else \<exists>r. CheckCycles wr = Some (Inr r)"
    if w: "allPackages wr = pkgMap" for wr
  proof -
    have "fresh wr" using c w by (rule CollectPackages_fresh)
    note p = CheckCycles_panics_iff [OF this]
    have i: "(\<exists>e. imports_of (allPackages wr) x = Inl e)
       \<longleftrightarrow> x \<notin> fst ` set pkgMap \<or>
         (\<exists>(name, f) \<in> set infos. ComputedPackage f = x
            \<and> (\<exists>dep \<in> set (Deps f). map_of infos dep = None))" for x
      unfolding w using assms c by (rule CollectPackages_imports)
    have "CheckCycles wr \<noteq> None" by (rule CheckCycles_returns)
    then obtain res where res: "CheckCycles wr = Some res" by blast
    show ?thesis
    proof (cases res)
      case (Inl e)
      with res p have "\<exists>x \<in> reachable wr. \<exists>e. imports_of (allPackages wr) x = Inl e" by blast
      then have "\<exists>x \<in> reachable wr. x \<notin> fst ` set pkgMap \<or>
               (\<exists>(name, f) \<in> set infos. ComputedPackage f = x
                  \<and> (\<exists>dep \<in> set (Deps f). map_of infos dep = None))"
        unfolding i .
      with res Inl show ?thesis by simp
    next
      case (Inr r)
      with res p have "\<not> (\<exists>x \<in> reachable wr. \<exists>e. imports_of (allPackages wr) x = Inl e)" by simp
      then have "\<not> (\<exists>x \<in> reachable wr. x \<notin> fst ` set pkgMap \<or>
               (\<exists>(name, f) \<in> set infos. ComputedPackage f = x
                  \<and> (\<exists>dep \<in> set (Deps f). map_of infos dep = None)))"
        unfolding i .
      with res Inr show ?thesis by simp
    qed
  qed
  from c a b show ?thesis by blast
qed

theorem unresolved_dependency_panics_witness:
  "\<exists>pkgMap. CollectPackages (\<lambda>key. rev)
     [(go ''a.proto'', \<lparr>Name = go ''a.proto'', FullPath = [], Package = go ''a'', GoPackage = [],
         Deps = [go ''b.proto''], ComputedPackage = go ''.;a''\<rparr>),
      (go ''b.proto'', \<lparr>Name = go ''b.proto'', FullPath = [], Package = go ''b'', GoPackage = [],
         Deps = [go ''c.proto'', go ''missing.proto''], ComputedPackage = go ''.;b''\<rparr>),
      (go ''c.proto'', \<lparr>Name = go ''c.proto'', FullPath = [], Package = go ''c'', GoPackage = [],
         Deps = [], ComputedPackage = go ''.;c''\<rparr>)] = Inr pkgMap
   \<and> (\<exists>pkg. map_of pkgMap (go ''.;b'') = Some pkg \<and> None \<in> set (PkgDeps pkg))
   \<and> (\<exists>e. CheckCycles \<lparr>Parallelism = 1, packages = [go ''.;a''], allPackages = pkgMap,
                         initCalled = True\<rparr> = Some (Inl e))
   \<and> (\<exists>r. CheckCycles \<lparr>Parallelism = 1, packages = [go ''.;c''], allPackages = pkgMap,
                         initCalled = True\<rparr> = Some (Inr r))"
proof -
  let ?a = "\<lparr>Name = go ''a.proto'', FullPath = [], Package = go ''a'', GoPackage = [],
         Deps = [go ''b.proto''], ComputedPackage = go ''.;a''\<rparr>"
  let ?b = "\<lparr>Name = go ''b.proto'', FullPath = [], Package = go ''b'', GoPackage = [],
         Deps = [go ''c.proto'', go ''missing.proto''], ComputedPackage = go ''.;b''\<rparr>"
  let ?c = "\<lparr>Name = go ''c.proto'', FullPath = [], Package = go ''c'', GoPackage = [],
         Deps = [], ComputedPackage = go ''.;c''\<rparr>"
  let ?infos = "[(go ''a.proto'', ?a), (go ''b.proto'', ?b), (go ''c.proto'', ?c)]"
  let ?pa = "\<lparr>PkgComputedPackage = go ''.;a'', Files = [?a], PkgDeps = [Some ?b],
              index = 0, lowlink = 0, onStack = False\<rparr>"
  let ?pb = "\<lparr>PkgComputedPackage = go ''.;b'', Files = [?b], PkgDeps = [None, Some ?c],
              index = 0, lowlink = 0, onStack = False\<rparr>"
  let ?pc = "\<lparr>PkgComputedPackage = go ''.;c'', Files = [?c], PkgDeps = [],
              index = 0, lowlink = 0, onStack = False\<rparr>"
  let ?pk = "[(go ''.;a'', ?pa), (go ''.;b'', ?pb), (go ''.;c'', ?pc)]"
  let ?wa = "\<lparr>Parallelism = 1, packages = [go ''.;a''], allPackages = ?pk, initCalled = True\<rparr>"
  let ?wc = "\<lparr>Parallelism = 1, packages = [go ''.;c''], allPackages = ?pk, initCalled = True\<rparr>"
  have c: "CollectPackages (\<lambda>key. rev) ?infos = Inr ?pk"
    by (simp add: CollectPackages_def go_def add_file_def modify_def new_PackageInfo_def
      set_deps_def collect_deps_def store_def)
  from unresolved_dependency_panics [OF permutes_examples(2), of ?infos]
  obtain pkgMap where p: "CollectPackages (\<lambda>key. rev) ?infos = Inr pkgMap"
    and nil': "\<forall>(name, f) \<in> set ?infos. \<forall>dep \<in> set (Deps f). map_of ?infos dep = None \<longrightarrow>
        (\<exists>pkg. map_of pkgMap (ComputedPackage f) = Some pkg \<and> None \<in> set (PkgDeps pkg))"
    and run': "\<forall>wr. allPackages wr = pkgMap \<longrightarrow>
        (if \<exists>x \<in> reachable wr. x \<notin> fst ` set pkgMap \<or>
               (\<exists>(name, f) \<in> set ?infos. ComputedPackage f = x
                  \<and> (\<exists>dep \<in> set (Deps f). map_of ?infos dep = None))
         then \<exists>e. CheckCycles wr = Some (Inl e)
         else \<exists>r. CheckCycles wr = Some (Inr r))"
    by blast
  from p c have eq: "pkgMap = ?pk" by simp
  note nil = nil' [unfolded eq]
  have run: "if \<exists>x \<in> reachable wr. x \<notin> fst ` set ?pk \<or>
               (\<exists>(name, f) \<in> set ?infos. ComputedPackage f = x
                  \<and> (\<exists>dep \<in> set (Deps f). map_of ?infos dep = None))
         then \<exists>e. CheckCycles wr = Some (Inl e)
         else \<exists>r. CheckCycles wr = Some (Inr r)" if "allPackages wr = ?pk" for wr
    using run' [unfolded eq] that by blast
  have m: "map_of ?infos (go ''missing.proto'') = None" by (simp add: go_def)
  from nil m have 1: "\<exists>pkg. map_of ?pk (go ''.;b'') = Some pkg \<and> None \<in> set (PkgDeps pkg)"
    by force
  have "imports_of ?pk (go ''.;a'') = Inr [go ''.;b'']"
    by (simp add: imports_of_def ImportedPackageComputedNames_def go_def)
  then have "(go ''.;a'', go ''.;b'') \<in> import_edges ?pk" by (simp add: import_edges_def)
  then have "go ''.;b'' \<in> reachable ?wa" by (auto simp: reachable_def)
  moreover have "\<exists>(name, f) \<in> set ?infos. ComputedPackage f = go ''.;b''
                  \<and> (\<exists>dep \<in> set (Deps f). map_of ?infos dep = None)"
    using m by simp
  ultimately have ca: "\<exists>x \<in> reachable ?wa. x \<notin> fst ` set ?pk \<or>
               (\<exists>(name, f) \<in> set ?infos. ComputedPackage f = x
                  \<and> (\<exists>dep \<in> set (Deps f). map_of ?infos dep = None))"
    by blast
  have "allPackages ?wa = ?pk" by simp
  from run [OF this] have 2: "\<exists>e. CheckCycles ?wa = Some (Inl e)"
    unfolding if_P [OF ca] .
  have "imports_of ?pk (go ''.;c'') = Inr []"
    by (simp add: imports_of_def ImportedPackageComputedNames_def go_def)
  then have "import_edges ?pk `` {go ''.;c''} \<subseteq> {go ''.;c''}" by (auto simp: import_edges_def)
  then have "(import_edges ?pk)\<^sup>* `` {go ''.;c''} = {go ''.;c''}" by (rule Image_closed_trancl)
  then have r: "reachable ?wc = {go ''.;c''}" by (simp add: reachable_def)
  have cc: "\<not> (\<exists>x \<in> reachable ?wc. x \<notin> fst ` set ?pk \<or>
               (\<exists>(name, f) \<in> set ?infos. ComputedPackage f = x
                  \<and> (\<exists>dep \<in> set (Deps f). map_of ?infos dep = None)))"
    unfolding r by (simp add: go_def)
  have "allPackages ?wc = ?pk" by simp
  from run [OF this] have 3: "\<exists>r. CheckCycles ?wc = Some (Inr r)"
    unfolding if_not_P [OF cc] .
  from c 1 2 3 show ?thesis by blast
qed

end
